theory Spec2Isabelle
  imports Main "HOL-Library.AList" "HOL-Library.Product_Lexorder"
begin

section \<open>Digest notifications (sentry/digests/notifications.py)\<close>

text \<open>
  A shallow embedding of the digest builder. Python exceptions are values of the type
  \<open>error\<close>; a function that may raise returns \<open>error + 'a\<close> with \<open>Inl\<close> the exception.
  Python integers are \<open>int\<close>, text is \<open>string\<close>, and a dictionary is an association list
  in insertion order (the iteration order of \<open>dict\<close> and \<open>OrderedDict\<close>).
\<close>

datatype error = AssertionError | KeyError | IndexError | ValueError | DoesNotExist | AttributeError

subsection \<open>Python primitives used by the key codec\<close>

text \<open>
  \<open>str.format\<close> renders an integer in decimal, with a leading minus sign when negative.
\<close>

definition digit_char :: "nat \<Rightarrow> char" where
  "digit_char d = char_of (48 + d)"

fun str_nat :: "nat \<Rightarrow> string" where
  "str_nat n = (if n < 10 then [digit_char n] else str_nat (n div 10) @ [digit_char (n mod 10)])"

declare str_nat.simps [simp del]

definition str_int :: "int \<Rightarrow> string" where
  "str_int i = (if i < 0 then CHR ''-'' # str_nat (nat (- i)) else str_nat (nat i))"

text \<open>
  \<open>int(s)\<close> on text: an optional sign followed by one or more decimal digits; anything else
  raises \<open>ValueError\<close> (\<open>None\<close> here). Python also accepts surrounding white space and, from
  3.6 on, single underscores between digits; such texts are rejected by this model. The
  encoder below never produces them in a position that is parsed.
\<close>

definition is_digit :: "char \<Rightarrow> bool" where
  "is_digit c = (48 \<le> (of_char c :: nat) \<and> (of_char c :: nat) \<le> 57)"

fun parse_digits :: "nat \<Rightarrow> string \<Rightarrow> nat option" where
  "parse_digits acc [] = Some acc"
| "parse_digits acc (c # cs) =
     (if is_digit c then parse_digits (acc * 10 + (of_char c - 48)) cs else None)"

definition parse_nat :: "string \<Rightarrow> nat option" where
  "parse_nat s = (if s = [] then None else parse_digits 0 s)"

definition py_int :: "string \<Rightarrow> int option" where
  "py_int s =
     (case s of
        [] \<Rightarrow> None
      | c # cs \<Rightarrow>
          if c = CHR ''-'' then map_option (\<lambda>n. - int n) (parse_nat cs)
          else if c = CHR ''+'' then map_option int (parse_nat cs)
          else map_option int (parse_nat s))"

text \<open>
  \<open>s.split(sep, maxsplit)\<close> for a one-character separator: split at the first
  \<open>maxsplit\<close> occurrences of the separator, from the left.
\<close>

fun py_split :: "char \<Rightarrow> nat \<Rightarrow> string \<Rightarrow> string list" where
  "py_split sep n [] = [[]]"
| "py_split sep n (c # cs) =
     (if c = sep \<and> 0 < n then [] # py_split sep (n - 1) cs
      else (case py_split sep n cs of
              [] \<Rightarrow> [[c]]
            | w # ws \<Rightarrow> (c # w) # ws))"

subsection \<open>Domain objects\<close>

text \<open>
  \<open>Project\<close>, \<open>Group\<close> and \<open>Rule\<close> are database models declared outside this module; the
  records hold the attributes this module reads and writes. Every field is named
  \<open>class_attribute\<close>: \<open>project.id\<close> is \<open>project_id\<close>, \<open>group.project_id\<close> is
  \<open>group_project_id\<close>, \<open>record.value\<close> is \<open>record_value\<close>, and so on.
\<close>

record Project =
  project_id :: int
  project_slug :: string

datatype adapter = MailAdapter

definition TARGETED_MAIL_ACTION_SYMBOL :: string where
  "TARGETED_MAIL_ACTION_SYMBOL = ''targeted_mail''"

subsection \<open>Key codec\<close>

text \<open>
  Modelled from the spec: \<open>Project.objects.get(pk=...)\<close> is the entity-owner lookup of the
  object store, which is not part of this module; it resolves an id to the stored owner or
  fails with a not-found condition. The store is a parameter. The key carries the id as
  text, which the lookup converts to an integer first.
\<close>

definition Project_objects_get :: "(int \<Rightarrow> Project option) \<Rightarrow> string \<Rightarrow> error + Project" where
  "Project_objects_get store pk =
     (case py_int pk of
        None \<Rightarrow> Inl ValueError
      | Some i \<Rightarrow> (case store i of None \<Rightarrow> Inl DoesNotExist | Some p \<Rightarrow> Inr p))"

definition unsplit_key_for_targeted_action :: "Project \<Rightarrow> string \<Rightarrow> int option \<Rightarrow> string" where
  "unsplit_key_for_targeted_action project target_type target_id =
     (let sanitised_target_id = (case target_id of Some t \<Rightarrow> t | None \<Rightarrow> - 1)
      in TARGETED_MAIL_ACTION_SYMBOL @ '':p:'' @ str_int (project_id project) @ '':''
           @ target_type @ '':'' @ str_int sanitised_target_id)"

text \<open>
  The tuple assignment from \<open>key.split(":", 4)\<close> raises \<open>ValueError\<close> unless the split has
  exactly five parts. The elements of the returned tuple are evaluated left to right: the
  project lookup comes before the conversion of the target identifier.
\<close>

definition split_key_for_targeted_action ::
    "(int \<Rightarrow> Project option) \<Rightarrow> string \<Rightarrow> error + (adapter \<times> Project \<times> string \<times> int)" where
  "split_key_for_targeted_action store key =
     (case py_split CHR '':'' 4 key of
        [_, _, project_id', target_type, target_identifier_str] \<Rightarrow>
          (case Project_objects_get store project_id' of
             Inl e \<Rightarrow> Inl e
           | Inr project \<Rightarrow>
               (case py_int target_identifier_str of
                  None \<Rightarrow> Inl ValueError
                | Some target_identifier \<Rightarrow>
                    Inr (MailAdapter, project, target_type, target_identifier)))
      | _ \<Rightarrow> Inl ValueError)"

subsection \<open>Groups, rules, events and records\<close>

text \<open>
  Modelled from the spec: \<open>GroupStatus\<close> and \<open>Group.get_status\<close> are declared with the
  \<open>Group\<close> model, outside this module. The spec gives the status as an enumeration that
  includes UNRESOLVED, RESOLVED and IGNORED, and \<open>get_status\<close> as the read of the entity's
  current status.
\<close>

datatype GroupStatus = UNRESOLVED | RESOLVED | IGNORED | OtherStatus nat

record Group =
  group_id :: int
  group_project_id :: int
  group_project :: "Project option"
  group_status :: GroupStatus
  group_event_count :: int
  group_user_count :: int

definition get_status :: "Group \<Rightarrow> GroupStatus" where
  "get_status grp = group_status grp"

record Rule =
  rule_id :: int
  rule_project_id :: int
  rule_project :: "Project option"

text \<open>
  An event carries the id of its group; the attribute \<open>event.group\<close> is unset (\<open>None\<close>
  here) until \<open>rewrite_record\<close> assigns it. Reading the unset attribute is an
  \<open>AttributeError\<close>. The local variable \<open>group\<close> of the source is written \<open>grp\<close>
  (\<open>group\<close> is a constant of HOL).
\<close>

record Event =
  event_event_id :: string
  event_group_id :: int
  event_group :: "Group option"

text \<open>
  \<open>Notification\<close> and \<open>Record\<close> are named tuples. The rules of a notification are rule
  ids when the record is created and \<open>Rule\<close> objects after the rewrite, hence the type
  parameter. The timestamp is an epoch value that this module only passes on.
\<close>

record 'r Notification =
  notification_event :: Event
  notification_rules :: "'r list"

record 'r Record =
  record_key :: string
  record_value :: "'r Notification"
  record_timestamp :: int

subsection \<open>Fetching the state\<close>

text \<open>
  The collaborators of \<open>fetch_state\<close> are parameters: the bulk lookups of the object
  store, the two counter queries of the time-series service (each takes the keys and the
  interval), and the conversion behind the \<open>datetime\<close> property of a record.
\<close>

record 'd Env =
  Group_objects_in_bulk :: "int list \<Rightarrow> (int \<times> Group) list"
  Rule_objects_in_bulk :: "int list \<Rightarrow> (int \<times> Rule) list"
  tsdb_get_sums :: "int list \<Rightarrow> 'd \<Rightarrow> 'd \<Rightarrow> (int \<times> int) list"
  tsdb_get_distinct_counts_totals :: "int list \<Rightarrow> 'd \<Rightarrow> 'd \<Rightarrow> (int \<times> int) list"
  to_datetime :: "int \<Rightarrow> 'd"

text \<open>
  Modelled from the spec: the \<open>datetime\<close> property of \<open>Record\<close> is declared outside this
  module; the spec identifies it with the record's timestamp, so it is the timestamp under
  the conversion \<open>to_datetime\<close>.
\<close>

definition Record_datetime :: "'d Env \<Rightarrow> 'r Record \<Rightarrow> 'd" where
  "Record_datetime env record = to_datetime env (record_timestamp record)"

record State =
  state_project :: Project
  state_groups :: "(int \<times> Group) list"
  state_rules :: "(int \<times> Rule) list"
  state_event_counts :: "(int \<times> int) list"
  state_user_counts :: "(int \<times> int) list"

text \<open>\<open>records[-1]\<close> and \<open>records[0]\<close> raise \<open>IndexError\<close> on an empty list.\<close>

definition fetch_state :: "'d Env \<Rightarrow> Project \<Rightarrow> int Record list \<Rightarrow> error + State" where
  "fetch_state env project records =
     (if records = [] then Inl IndexError
      else
        let start = Record_datetime env (last records);
            end' = Record_datetime env (hd records);
            groups = Group_objects_in_bulk env
              (map (\<lambda>record. event_group_id (notification_event (record_value record))) records)
        in Inr \<lparr>state_project = project,
                state_groups = groups,
                state_rules = Rule_objects_in_bulk env
                  (concat (map (\<lambda>record. notification_rules (record_value record)) records)),
                state_event_counts = tsdb_get_sums env (map fst groups) start end',
                state_user_counts =
                  tsdb_get_distinct_counts_totals env (map fst groups) start end'\<rparr>)"

subsection \<open>Attaching the state\<close>

record Attached =
  attached_project :: Project
  attached_groups :: "(int \<times> Group) list"
  attached_rules :: "(int \<times> Rule) list"

text \<open>The first loop of \<open>attach_state\<close>: a failing assertion ends the call.\<close>

fun attach_groups :: "Project \<Rightarrow> (int \<times> Group) list \<Rightarrow> error + (int \<times> Group) list" where
  "attach_groups project [] = Inr []"
| "attach_groups project ((ident, grp) # rest) =
     (if group_project_id grp \<noteq> project_id project then Inl AssertionError
      else (case attach_groups project rest of
              Inl e \<Rightarrow> Inl e
            | Inr rest' \<Rightarrow>
                Inr ((ident, grp\<lparr>group_project := Some project,
                                   group_event_count := 0,
                                   group_user_count := 0\<rparr>) # rest')))"

text \<open>The second loop.\<close>

fun attach_rules :: "Project \<Rightarrow> (int \<times> Rule) list \<Rightarrow> error + (int \<times> Rule) list" where
  "attach_rules project [] = Inr []"
| "attach_rules project ((ident, rule) # rest) =
     (if rule_project_id rule \<noteq> project_id project then Inl AssertionError
      else (case attach_rules project rest of
              Inl e \<Rightarrow> Inl e
            | Inr rest' \<Rightarrow> Inr ((ident, rule\<lparr>rule_project := Some project\<rparr>) # rest')))"

text \<open>
  The third and fourth loops: \<open>groups[id]\<close> raises \<open>KeyError\<close> when the id is not a key of
  the dictionary.
\<close>

fun set_event_counts :: "(int \<times> Group) list \<Rightarrow> (int \<times> int) list \<Rightarrow> error + (int \<times> Group) list" where
  "set_event_counts groups [] = Inr groups"
| "set_event_counts groups ((ident, event_count) # rest) =
     (case map_of groups ident of
        None \<Rightarrow> Inl KeyError
      | Some grp \<Rightarrow>
          set_event_counts
            (AList.update ident (grp\<lparr>group_event_count := event_count\<rparr>) groups) rest)"

fun set_user_counts :: "(int \<times> Group) list \<Rightarrow> (int \<times> int) list \<Rightarrow> error + (int \<times> Group) list" where
  "set_user_counts groups [] = Inr groups"
| "set_user_counts groups ((ident, user_count) # rest) =
     (case map_of groups ident of
        None \<Rightarrow> Inl KeyError
      | Some grp \<Rightarrow>
          set_user_counts
            (AList.update ident (grp\<lparr>group_user_count := user_count\<rparr>) groups) rest)"

definition attach_state ::
    "Project \<Rightarrow> (int \<times> Group) list \<Rightarrow> (int \<times> Rule) list \<Rightarrow> (int \<times> int) list \<Rightarrow> (int \<times> int) list
      \<Rightarrow> error + Attached" where
  "attach_state project groups rules event_counts user_counts =
     (case attach_groups project groups of
        Inl e \<Rightarrow> Inl e
      | Inr groups1 \<Rightarrow>
     (case attach_rules project rules of
        Inl e \<Rightarrow> Inl e
      | Inr rules1 \<Rightarrow>
     (case set_event_counts groups1 event_counts of
        Inl e \<Rightarrow> Inl e
      | Inr groups2 \<Rightarrow>
     (case set_user_counts groups2 user_counts of
        Inl e \<Rightarrow> Inl e
      | Inr groups3 \<Rightarrow>
          Inr \<lparr>attached_project = project, attached_groups = groups3,
               attached_rules = rules1\<rparr>))))"

subsection \<open>The pipeline engine\<close>

text \<open>
  An operation takes the current sequence and returns the next one, or raises. Calling the
  pipeline applies the registered operations from left to right; \<open>then_stage\<close> is one step
  of that fold. The debug logging of the stages is left out.
\<close>

definition then_stage :: "('a \<Rightarrow> error + 'b) \<Rightarrow> ('b \<Rightarrow> error + 'c) \<Rightarrow> 'a \<Rightarrow> error + 'c" where
  "then_stage operation rest sequence =
     (case operation sequence of Inl e \<Rightarrow> Inl e | Inr x \<Rightarrow> rest x)"

definition Pipeline_apply :: "('a \<Rightarrow> error + 'b) \<Rightarrow> 'a \<Rightarrow> error + 'b" where
  "Pipeline_apply function sequence = function sequence"

fun Pipeline_filter :: "('a \<Rightarrow> error + bool) \<Rightarrow> 'a list \<Rightarrow> error + 'a list" where
  "Pipeline_filter function [] = Inr []"
| "Pipeline_filter function (s # sequence) =
     (case function s of
        Inl e \<Rightarrow> Inl e
      | Inr keep \<Rightarrow>
          (case Pipeline_filter function sequence of
             Inl e \<Rightarrow> Inl e
           | Inr result \<Rightarrow> Inr (if keep then s # result else result)))"

fun Pipeline_map :: "('a \<Rightarrow> error + 'b) \<Rightarrow> 'a list \<Rightarrow> error + 'b list" where
  "Pipeline_map function [] = Inr []"
| "Pipeline_map function (s # sequence) =
     (case function s of
        Inl e \<Rightarrow> Inl e
      | Inr y \<Rightarrow>
          (case Pipeline_map function sequence of
             Inl e \<Rightarrow> Inl e
           | Inr result \<Rightarrow> Inr (y # result)))"

text \<open>\<open>reduce(function, sequence, initial)\<close> of Python.\<close>

fun reduce :: "('b \<Rightarrow> 'a \<Rightarrow> error + 'b) \<Rightarrow> 'a list \<Rightarrow> 'b \<Rightarrow> error + 'b" where
  "reduce function [] acc = Inr acc"
| "reduce function (s # sequence) acc =
     (case function acc s of Inl e \<Rightarrow> Inl e | Inr acc' \<Rightarrow> reduce function sequence acc')"

definition Pipeline_reduce ::
    "('b \<Rightarrow> 'a \<Rightarrow> error + 'b) \<Rightarrow> ('a list \<Rightarrow> 'b) \<Rightarrow> 'a list \<Rightarrow> error + 'b" where
  "Pipeline_reduce function initializer sequence = reduce function sequence (initializer sequence)"

text \<open>A function that does not raise, as an operation.\<close>

definition returns :: "('a \<Rightarrow> 'b) \<Rightarrow> 'a \<Rightarrow> error + 'b" where
  "returns function x = Inr (function x)"

subsection \<open>The stages of the digest pipeline\<close>

text \<open>
  \<open>rewrite_record\<close> assigns \<open>event.group\<close> on the event object of the record it is given
  and returns a new record that refers to the same event, or \<open>None\<close>. The first component
  of the result is the event after the call, the second the returned value.
  \<open>rules.get(id)\<close> is \<open>None\<close> for an unknown id; a \<open>Rule\<close> object is truthy.
\<close>

definition rewrite_record ::
    "int Record \<Rightarrow> Project \<Rightarrow> (int \<times> Group) list \<Rightarrow> (int \<times> Rule) list
      \<Rightarrow> Event \<times> Rule Record option" where
  "rewrite_record record project groups rules =
     (let event = notification_event (record_value record)
      in case map_of groups (event_group_id event) of
           None \<Rightarrow> (event, None)
         | Some grp \<Rightarrow>
             (let event' = event\<lparr>event_group := Some grp\<rparr>
              in (event',
                  Some \<lparr>record_key = record_key record,
                        record_value =
                          \<lparr>notification_event = event',
                           notification_rules =
                             List.map_filter (map_of rules)
                               (notification_rules (record_value record))\<rparr>,
                        record_timestamp = record_timestamp record\<rparr>)))"

text \<open>
  \<open>bool\<close> on the values the map stage produces: \<open>None\<close> is falsy, a \<open>Record\<close> (a tuple of
  three fields) is truthy. After \<open>filter(bool)\<close> every element is a record; \<open>somes\<close> is
  that change of type and does nothing at run time.
\<close>

definition py_bool :: "'a option \<Rightarrow> bool" where
  "py_bool x = (x \<noteq> None)"

definition somes :: "'a option list \<Rightarrow> 'a list" where
  "somes sequence = List.map_filter (\<lambda>x. x) sequence"

definition check_group_state :: "'r Record \<Rightarrow> error + bool" where
  "check_group_state record =
     (case event_group (notification_event (record_value record)) of
        None \<Rightarrow> Inl AttributeError
      | Some grp \<Rightarrow> Inr (get_status grp = UNRESOLVED))"

text \<open>
  The accumulator of the fold is a \<open>defaultdict\<close> of \<open>defaultdict\<close>s of lists:
  \<open>groups[rule][group].append(record)\<close> creates the missing entries, at the end of the
  iteration order, and appends to the list.

  Modelled from the spec: equality and hashing of \<open>Rule\<close> and \<open>Group\<close> objects are
  declared with the models, outside this module; the spec folds into a mapping from rule
  id to a mapping from entity id, so two keys are the same key when their ids are equal.
  The key object of an entry is the one that created it.
\<close>

fun append_to_group :: "(Group \<times> 'a list) list \<Rightarrow> Group \<Rightarrow> 'a \<Rightarrow> (Group \<times> 'a list) list" where
  "append_to_group [] grp record = [(grp, [record])]"
| "append_to_group ((g, records) # rest) grp record =
     (if group_id g = group_id grp then (g, records @ [record]) # rest
      else (g, records) # append_to_group rest grp record)"

fun append_to_rule ::
    "(Rule \<times> (Group \<times> 'a list) list) list \<Rightarrow> Rule \<Rightarrow> Group \<Rightarrow> 'a
      \<Rightarrow> (Rule \<times> (Group \<times> 'a list) list) list" where
  "append_to_rule [] rule grp record = [(rule, [(grp, [record])])]"
| "append_to_rule ((r, inner) # rest) rule grp record =
     (if rule_id r = rule_id rule then (r, append_to_group inner grp record) # rest
      else (r, inner) # append_to_rule rest rule grp record)"

type_synonym digest = "(Rule \<times> (Group \<times> Rule Record list) list) list"

definition group_records :: "digest \<Rightarrow> Rule Record \<Rightarrow> error + digest" where
  "group_records groups record =
     (case event_group (notification_event (record_value record)) of
        None \<Rightarrow> Inl AttributeError
      | Some grp \<Rightarrow>
          Inr (foldl (\<lambda>groups rule. append_to_rule groups rule grp record) groups
                 (notification_rules (record_value record))))"

text \<open>
  \<open>sorted(items, key=key, reverse=True)\<close>: the sort is stable, and with \<open>reverse=True\<close>
  elements with equal keys keep their original order (the list is reversed, sorted in
  ascending order, and reversed again).
\<close>

definition sorted_reverse :: "('a \<Rightarrow> 'k::linorder) \<Rightarrow> 'a list \<Rightarrow> 'a list" where
  "sorted_reverse key_of items = rev (sort_key key_of (rev items))"

text \<open>The key of an entry \<open>x = (group, records)\<close> is a tuple, compared lexicographically.\<close>

definition sort_group_contents :: "(Rule \<times> (Group \<times> 'a list) list) list
    \<Rightarrow> (Rule \<times> (Group \<times> 'a list) list) list" where
  "sort_group_contents rules =
     map (\<lambda>(key, groups).
            (key, sorted_reverse (\<lambda>x. (group_event_count (fst x), group_user_count (fst x)))
                    groups))
       rules"

definition sort_rule_groups :: "(Rule \<times> (Group \<times> 'a list) list) list
    \<Rightarrow> (Rule \<times> (Group \<times> 'a list) list) list" where
  "sort_rule_groups rules = sorted_reverse (\<lambda>x. length (snd x)) rules"

subsection \<open>The digest builder\<close>

text \<open>The pipeline that \<open>build_digest\<close> assembles, called on the records.\<close>

definition digest_pipeline :: "Attached \<Rightarrow> int Record list \<Rightarrow> error + digest" where
  "digest_pipeline state =
     then_stage (Pipeline_map (returns (\<lambda>record.
         snd (rewrite_record record (attached_project state) (attached_groups state)
                (attached_rules state)))))
    (then_stage (Pipeline_filter (returns py_bool))
    (then_stage (returns somes)
    (then_stage (Pipeline_filter check_group_state)
    (then_stage (Pipeline_reduce group_records (\<lambda>sequence. []))
    (then_stage (Pipeline_apply (returns sort_group_contents))
                (Pipeline_apply (returns sort_rule_groups)))))))"

text \<open>
  The records of the caller after the pipeline has run: each event is as the map stage
  left it.
\<close>

definition records_after_pipeline :: "Attached \<Rightarrow> int Record list \<Rightarrow> int Record list" where
  "records_after_pipeline state records =
     map (\<lambda>record.
            record\<lparr>record_value := (record_value record)
              \<lparr>notification_event :=
                 fst (rewrite_record record (attached_project state) (attached_groups state)
                        (attached_rules state))\<rparr>\<rparr>)
       records"

text \<open>
  \<open>build_digest\<close> returns \<open>None\<close> (here \<open>Inr None\<close>) for an empty batch. The state is
  fetched unless the caller supplies it, then attached (\<open>attach_state(**state)\<close> takes the
  project from the state), then the pipeline runs.
\<close>

definition build_digest ::
    "'d Env \<Rightarrow> Project \<Rightarrow> int Record list \<Rightarrow> State option \<Rightarrow> error + digest option" where
  "build_digest env project records state =
     (if records = [] then Inr None
      else
        (case (case state of None \<Rightarrow> fetch_state env project records | Some s \<Rightarrow> Inr s) of
           Inl e \<Rightarrow> Inl e
         | Inr state' \<Rightarrow>
             (case attach_state (state_project state') (state_groups state')
                     (state_rules state') (state_event_counts state')
                     (state_user_counts state') of
                Inl e \<Rightarrow> Inl e
              | Inr attached \<Rightarrow>
                  (case digest_pipeline attached records of
                     Inl e \<Rightarrow> Inl e
                   | Inr result \<Rightarrow> Inr (Some result)))))"

section \<open>Vocabulary of the properties\<close>

text \<open>
  The definitions of this section are not functions of the module; they name what the
  properties below talk about.

  The ownership precondition of \<open>attach_state\<close>: every group and every rule carries the
  id of the project.
\<close>

definition owned :: "Project \<Rightarrow> (int \<times> Group) list \<Rightarrow> (int \<times> Rule) list \<Rightarrow> bool" where
  "owned project groups rules \<longleftrightarrow>
     list_all (\<lambda>(i, g). group_project_id g = project_id project) groups \<and>
     list_all (\<lambda>(i, r). rule_project_id r = project_id project) rules"

text \<open>
  The attached state that \<open>build_digest\<close> computes for a non-empty batch before it runs
  the pipeline (the state it was given, or the fetched one, passed to \<open>attach_state\<close>).
\<close>

definition build_state :: "'d Env \<Rightarrow> Project \<Rightarrow> int Record list \<Rightarrow> State option \<Rightarrow> error + Attached" where
  "build_state env project records state =
     (case (case state of None \<Rightarrow> fetch_state env project records | Some s \<Rightarrow> Inr s) of
        Inl e \<Rightarrow> Inl e
      | Inr state' \<Rightarrow>
          attach_state (state_project state') (state_groups state') (state_rules state')
            (state_event_counts state') (state_user_counts state'))"

text \<open>
  \<open>record.value.event.group\<close>; the sequence after the map stage and \<open>filter(bool)\<close>; the
  predicate of the status filter on a record whose group is set; the sequence after the
  status filter.
\<close>

definition record_group :: "'r Record \<Rightarrow> Group option" where
  "record_group record = event_group (notification_event (record_value record))"

definition rewritten :: "Attached \<Rightarrow> int Record list \<Rightarrow> Rule Record list" where
  "rewritten state records =
     somes (map (\<lambda>record. snd (rewrite_record record (attached_project state)
                                 (attached_groups state) (attached_rules state))) records)"

definition unresolved :: "'r Record \<Rightarrow> bool" where
  "unresolved record =
     (case record_group record of None \<Rightarrow> False | Some grp \<Rightarrow> get_status grp = UNRESOLVED)"

definition survivors :: "Attached \<Rightarrow> int Record list \<Rightarrow> Rule Record list" where
  "survivors state records = filter unresolved (rewritten state records)"

text \<open>
  The grouping fold on records whose group is set, where it does not raise, and its result
  on a sequence.
\<close>

definition group_records_total :: "digest \<Rightarrow> Rule Record \<Rightarrow> digest" where
  "group_records_total groups record =
     (case record_group record of
        None \<Rightarrow> groups
      | Some grp \<Rightarrow>
          foldl (\<lambda>groups rule. append_to_rule groups rule grp record) groups
            (notification_rules (record_value record)))"

definition grouped :: "Rule Record list \<Rightarrow> digest" where
  "grouped sequence = foldl group_records_total [] sequence"

text \<open>
  The list stored under a rule id and a group id (empty when there is no such entry), and
  the list that is expected there: each record of the sequence that belongs to the group,
  in sequence order, as many times as the rule occurs in its rule list.
\<close>

fun group_leaf :: "(Group \<times> 'a list) list \<Rightarrow> int \<Rightarrow> 'a list" where
  "group_leaf [] gid = []"
| "group_leaf ((g, records) # rest) gid =
     (if group_id g = gid then records else group_leaf rest gid)"

fun digest_leaf :: "(Rule \<times> (Group \<times> 'a list) list) list \<Rightarrow> int \<Rightarrow> int \<Rightarrow> 'a list" where
  "digest_leaf [] rid gid = []"
| "digest_leaf ((r, inner) # rest) rid gid =
     (if rule_id r = rid then group_leaf inner gid else digest_leaf rest rid gid)"

definition contribution :: "Rule Record \<Rightarrow> int \<Rightarrow> int \<Rightarrow> Rule Record list" where
  "contribution record rid gid =
     (case record_group record of
        None \<Rightarrow> []
      | Some grp \<Rightarrow>
          if group_id grp = gid
          then replicate
                 (length (filter (\<lambda>rule. rule_id rule = rid)
                            (notification_rules (record_value record)))) record
          else [])"

definition expected_leaf :: "Rule Record list \<Rightarrow> int \<Rightarrow> int \<Rightarrow> Rule Record list" where
  "expected_leaf sequence rid gid = concat (map (\<lambda>record. contribution record rid gid) sequence)"

text \<open>
  A well-formed accumulator: keys are unique (by id) at both levels, no inner mapping is
  empty and no list is empty. \<open>inner_keys_all Q\<close> says that every inner key satisfies \<open>Q\<close>.
\<close>

definition wf_digest :: "(Rule \<times> (Group \<times> 'a list) list) list \<Rightarrow> bool" where
  "wf_digest d \<longleftrightarrow>
     distinct (map (\<lambda>x. rule_id (fst x)) d) \<and>
     (\<forall>x \<in> set d.
        distinct (map (\<lambda>x. group_id (fst x)) (snd x)) \<and> snd x \<noteq> [] \<and>
        (\<forall>y \<in> set (snd x). snd y \<noteq> []))"

definition inner_keys_all :: "(Group \<Rightarrow> bool) \<Rightarrow> (Rule \<times> (Group \<times> 'a list) list) list \<Rightarrow> bool" where
  "inner_keys_all Q d \<longleftrightarrow> (\<forall>x \<in> set d. \<forall>y \<in> set (snd x). Q (fst y))"

text \<open>The sort key of \<open>sort_group_contents\<close>.\<close>

definition count_key :: "Group \<times> 'a \<Rightarrow> int \<times> int" where
  "count_key x = (group_event_count (fst x), group_user_count (fst x))"

subsection \<open>Example data\<close>

text \<open>
  A project with three groups (the third one resolved) and two rules, counts for the first
  two groups, and a batch of four records in reverse chronological order: the second
  names a rule that does not exist, the third belongs to the resolved group, and the
  fourth to a group that does not exist.
\<close>

definition ex_project :: Project where
  "ex_project = \<lparr>project_id = 1, project_slug = ''web''\<rparr>"

definition ex_group :: "int \<Rightarrow> GroupStatus \<Rightarrow> Group" where
  "ex_group i s = \<lparr>group_id = i, group_project_id = 1, group_project = None, group_status = s,
                   group_event_count = 0, group_user_count = 0\<rparr>"

definition ex_rule :: "int \<Rightarrow> Rule" where
  "ex_rule i = \<lparr>rule_id = i, rule_project_id = 1, rule_project = None\<rparr>"

definition ex_state :: State where
  "ex_state = \<lparr>state_project = ex_project,
               state_groups = [(10, ex_group 10 UNRESOLVED), (11, ex_group 11 UNRESOLVED),
                               (12, ex_group 12 RESOLVED)],
               state_rules = [(5, ex_rule 5), (6, ex_rule 6)],
               state_event_counts = [(10, 5), (11, 10)],
               state_user_counts = [(10, 9), (11, 2)]\<rparr>"

definition ex_record :: "string \<Rightarrow> int \<Rightarrow> int list \<Rightarrow> int \<Rightarrow> int Record" where
  "ex_record k g rs t =
     \<lparr>record_key = k,
      record_value = \<lparr>notification_event = \<lparr>event_event_id = k, event_group_id = g,
                                             event_group = None\<rparr>,
                      notification_rules = rs\<rparr>,
      record_timestamp = t\<rparr>"

definition ex_records :: "int Record list" where
  "ex_records = [ex_record ''e1'' 10 [5, 6] 30, ex_record ''e2'' 11 [5, 7] 20,
                 ex_record ''e3'' 12 [5] 15, ex_record ''e4'' 42 [5] 10]"

definition ex_env :: "int Env" where
  "ex_env = \<lparr>Group_objects_in_bulk = (\<lambda>ids. filter (\<lambda>x. fst x \<in> set ids) (state_groups ex_state)),
             Rule_objects_in_bulk = (\<lambda>ids. filter (\<lambda>x. fst x \<in> set ids) (state_rules ex_state)),
             tsdb_get_sums = (\<lambda>keys start end'. map (\<lambda>k. (k, end' - start)) keys),
             tsdb_get_distinct_counts_totals = (\<lambda>keys start end'. map (\<lambda>k. (k, 1)) keys),
             to_datetime = (\<lambda>t. t)\<rparr>"

text \<open>The same objects after \<open>attach_state\<close>, a rewritten record, and the expected digest.\<close>

definition ex_attached_group :: "int \<Rightarrow> GroupStatus \<Rightarrow> int \<Rightarrow> int \<Rightarrow> Group" where
  "ex_attached_group i s events users =
     \<lparr>group_id = i, group_project_id = 1, group_project = Some ex_project, group_status = s,
      group_event_count = events, group_user_count = users\<rparr>"

definition ex_attached_rule :: "int \<Rightarrow> Rule" where
  "ex_attached_rule i = \<lparr>rule_id = i, rule_project_id = 1, rule_project = Some ex_project\<rparr>"

definition ex_attached :: Attached where
  "ex_attached = \<lparr>attached_project = ex_project,
                  attached_groups = [(10, ex_attached_group 10 UNRESOLVED 5 9),
                                     (11, ex_attached_group 11 UNRESOLVED 10 2),
                                     (12, ex_attached_group 12 RESOLVED 0 0)],
                  attached_rules = [(5, ex_attached_rule 5), (6, ex_attached_rule 6)]\<rparr>"

definition ex_rewritten :: "string \<Rightarrow> Group \<Rightarrow> Rule list \<Rightarrow> int \<Rightarrow> Rule Record" where
  "ex_rewritten k g rs t =
     \<lparr>record_key = k,
      record_value = \<lparr>notification_event = \<lparr>event_event_id = k, event_group_id = group_id g,
                                             event_group = Some g\<rparr>,
                      notification_rules = rs\<rparr>,
      record_timestamp = t\<rparr>"

definition ex_digest :: digest where
  "ex_digest =
     [(ex_attached_rule 5,
       [(ex_attached_group 11 UNRESOLVED 10 2,
         [ex_rewritten ''e2'' (ex_attached_group 11 UNRESOLVED 10 2) [ex_attached_rule 5] 20]),
        (ex_attached_group 10 UNRESOLVED 5 9,
         [ex_rewritten ''e1'' (ex_attached_group 10 UNRESOLVED 5 9)
            [ex_attached_rule 5, ex_attached_rule 6] 30])]),
      (ex_attached_rule 6,
       [(ex_attached_group 10 UNRESOLVED 5 9,
         [ex_rewritten ''e1'' (ex_attached_group 10 UNRESOLVED 5 9)
            [ex_attached_rule 5, ex_attached_rule 6] 30])])]"

section \<open>Properties of the key codec\<close>

lemma py_split_zero: "py_split sep 0 s = [s]"
  by (induction s) auto

lemma py_split_ne: "py_split sep n s \<noteq> []"
  by (induction sep n s rule: py_split.induct) (auto split: list.splits)

lemma py_split_prefix:
  "sep \<notin> set w \<Longrightarrow> py_split sep (Suc n) (w @ sep # rest) = w # py_split sep n rest"
  by (induction w) (auto split: list.splits)

lemma of_char_digit_char: "d < 10 \<Longrightarrow> (of_char (digit_char d) :: nat) = 48 + d"
  by (simp add: digit_char_def)

lemma is_digit_digit_char: "d < 10 \<Longrightarrow> is_digit (digit_char d)"
  by (simp add: is_digit_def of_char_digit_char)

lemma parse_digits_snoc:
  "parse_digits acc (xs @ [c]) =
     (case parse_digits acc xs of None \<Rightarrow> None
      | Some v \<Rightarrow> if is_digit c then Some (v * 10 + (of_char c - 48)) else None)"
  by (induction xs arbitrary: acc) auto

lemma str_nat_ne: "str_nat n \<noteq> []"
  by (induction n rule: str_nat.induct) (subst str_nat.simps, simp)

lemma parse_digits_str_nat: "parse_digits 0 (str_nat n) = Some n"
proof (induction n rule: str_nat.induct)
  case (1 n)
  show ?case
  proof (cases "n < 10")
    case True
    then show ?thesis
      by (subst str_nat.simps) (simp add: is_digit_digit_char of_char_digit_char)
  next
    case False
    with 1 have "parse_digits 0 (str_nat (n div 10)) = Some (n div 10)" by simp
    with False show ?thesis
      by (subst str_nat.simps)
        (simp add: parse_digits_snoc is_digit_digit_char of_char_digit_char)
  qed
qed

lemma parse_nat_str_nat: "parse_nat (str_nat n) = Some n"
  by (simp add: parse_nat_def str_nat_ne parse_digits_str_nat)

lemma str_nat_digits: "c \<in> set (str_nat n) \<Longrightarrow> is_digit c"
proof (induction n rule: str_nat.induct)
  case (1 n)
  then show ?case
    by (subst (asm) (2) str_nat.simps) (auto simp: is_digit_digit_char split: if_splits)
qed

lemma hd_str_nat_digit: "is_digit (hd (str_nat n))"
  using str_nat_digits [of "hd (str_nat n)" n] str_nat_ne [of n] by simp

lemma py_int_str_int: "py_int (str_int i) = Some i"
proof (cases "i < 0")
  case True
  then show ?thesis by (simp add: py_int_def str_int_def parse_nat_str_nat)
next
  case False
  obtain c cs where s: "str_nat (nat i) = c # cs"
    using str_nat_ne [of "nat i"] by (cases "str_nat (nat i)") auto
  have "is_digit c" using hd_str_nat_digit [of "nat i"] s by simp
  then have "c \<noteq> CHR ''-''" "c \<noteq> CHR ''+''" by (auto simp: is_digit_def)
  with False s show ?thesis
    using parse_nat_str_nat [of "nat i"] by (simp add: py_int_def str_int_def)
qed

lemma colon_notin_str_int: "CHR '':'' \<notin> set (str_int i)"
  by (auto simp: str_int_def is_digit_def dest!: str_nat_digits)

lemma py_split_encoded:
  assumes "CHR '':'' \<notin> set a" "CHR '':'' \<notin> set b" "CHR '':'' \<notin> set c" "CHR '':'' \<notin> set d"
  shows "py_split CHR '':'' 4 (a @ CHR '':'' # b @ CHR '':'' # c @ CHR '':'' # d @ CHR '':'' # e)
           = [a, b, c, d, e]"
proof -
  have four: "(4::nat) = Suc (Suc (Suc (Suc 0)))" by simp
  show ?thesis
    unfolding four using assms by (simp add: py_split_prefix py_split_zero)
qed

text \<open>
  C6. For a stored project, a target type that contains no colon and an
  integer target id, decoding the encoded targeted key yields the mail adapter, the same
  project, the same target type and the same target id; when the target id given to the
  encoder is \<open>None\<close>, the decoded id is \<open>-1\<close>.
\<close>

theorem targeted_key_round_trip:
  assumes "store (project_id project) = Some project"
    and "CHR '':'' \<notin> set target_type"
  shows "split_key_for_targeted_action store
           (unsplit_key_for_targeted_action project target_type target_id)
         = Inr (MailAdapter, project, target_type,
                case target_id of Some t \<Rightarrow> t | None \<Rightarrow> - 1)"
proof -
  let ?tid = "case target_id of Some t \<Rightarrow> t | None \<Rightarrow> - 1"
  have key: "unsplit_key_for_targeted_action project target_type target_id
      = ''targeted_mail'' @ CHR '':'' # ''p'' @ CHR '':'' # str_int (project_id project)
          @ CHR '':'' # target_type @ CHR '':'' # str_int ?tid"
    by (simp add: unsplit_key_for_targeted_action_def TARGETED_MAIL_ACTION_SYMBOL_def)
  have parts: "py_split CHR '':'' 4 (unsplit_key_for_targeted_action project target_type target_id)
      = [''targeted_mail'', ''p'', str_int (project_id project), target_type, str_int ?tid]"
    unfolding key
    by (rule py_split_encoded) (simp_all add: colon_notin_str_int assms(2))
  show ?thesis
    unfolding split_key_for_targeted_action_def parts
    by (simp add: Project_objects_get_def py_int_str_int assms(1))
qed

text \<open>The round trip at a concrete project, with no target id.\<close>

theorem targeted_key_round_trip_witness:
  "split_key_for_targeted_action (\<lambda>i. if i = 7 then Some \<lparr>project_id = 7, project_slug = ''web''\<rparr> else None)
     (unsplit_key_for_targeted_action \<lparr>project_id = 7, project_slug = ''web''\<rparr> ''Member'' None)
   = Inr (MailAdapter, \<lparr>project_id = 7, project_slug = ''web''\<rparr>, ''Member'', - 1)"
  using targeted_key_round_trip
    [of "\<lambda>i. if i = 7 then Some \<lparr>project_id = 7, project_slug = ''web''\<rparr> else None"
        "\<lparr>project_id = 7, project_slug = ''web''\<rparr>" "''Member''" None]
  by simp

text \<open>
  C6, for a target type that contains a colon: the key for the target type \<open>a:b\<close> and the
  id 5 splits into the target type \<open>a\<close> and the identifier text \<open>b:5\<close>, which is not an
  integer, so decoding raises \<open>ValueError\<close> instead of returning the encoded values.
\<close>

theorem targeted_key_colon_counterexample:
  "split_key_for_targeted_action (\<lambda>i. if i = 7 then Some \<lparr>project_id = 7, project_slug = ''web''\<rparr> else None)
     (unsplit_key_for_targeted_action \<lparr>project_id = 7, project_slug = ''web''\<rparr> ''a:b'' (Some 5))
   = Inl ValueError"
  by (simp add: split_key_for_targeted_action_def unsplit_key_for_targeted_action_def
      TARGETED_MAIL_ACTION_SYMBOL_def str_int_def str_nat.simps digit_char_def
      Project_objects_get_def py_int_def parse_nat_def is_digit_def)

section \<open>Properties of \<open>attach_state\<close>\<close>

lemma attach_groups_eq:
  "attach_groups project groups =
     (if list_all (\<lambda>(i, g). group_project_id g = project_id project) groups
      then Inr (map (\<lambda>(i, g). (i, g\<lparr>group_project := Some project, group_event_count := 0,
                                      group_user_count := 0\<rparr>)) groups)
      else Inl AssertionError)"
  by (induction groups) (auto split: sum.splits)

lemma attach_rules_eq:
  "attach_rules project rules =
     (if list_all (\<lambda>(i, r). rule_project_id r = project_id project) rules
      then Inr (map (\<lambda>(i, r). (i, r\<lparr>rule_project := Some project\<rparr>)) rules)
      else Inl AssertionError)"
  by (induction rules) (auto split: sum.splits)

lemma attach_groups_keys:
  "attach_groups project groups = Inr groups' \<Longrightarrow> fst ` set groups' = fst ` set groups"
  by (force simp: attach_groups_eq split: if_splits)

lemma set_update_subset: "set (AList.update k v al) \<subseteq> insert (k, v) (set al)"
  by (induction al) auto

lemma keys_update_present: "map_of al k = Some w \<Longrightarrow> fst ` set (AList.update k v al) = fst ` set al"
  by (induction al) (auto split: if_splits)

lemma update_entry_cases:
  "(i, g) \<in> set (AList.update k v al) \<Longrightarrow> (i, g) \<in> set al \<or> (i = k \<and> g = v)"
  using set_update_subset [of k v al] by auto

lemma set_event_counts_error: "set_event_counts groups counts = Inl e \<Longrightarrow> e = KeyError"
  by (induction groups counts rule: set_event_counts.induct) (auto split: option.splits)

lemma set_user_counts_error: "set_user_counts groups counts = Inl e \<Longrightarrow> e = KeyError"
  by (induction groups counts rule: set_user_counts.induct) (auto split: option.splits)

lemma map_of_None_iff: "map_of al k = None \<longleftrightarrow> k \<notin> fst ` set al"
  by (simp add: map_of_eq_None_iff)

lemma set_event_counts_ok_iff:
  "(\<exists>groups'. set_event_counts groups counts = Inr groups') \<longleftrightarrow> fst ` set counts \<subseteq> fst ` set groups"
proof (induction groups counts rule: set_event_counts.induct)
  case (1 groups)
  then show ?case by simp
next
  case (2 groups ident event_count rest)
  show ?case
  proof (cases "map_of groups ident")
    case None
    then have "ident \<notin> fst ` set groups" by (simp add: map_of_None_iff)
    with None show ?thesis by auto
  next
    case (Some grp)
    then have "ident \<in> fst ` set groups" by (metis map_of_None_iff option.distinct(1))
    with Some 2 show ?thesis by (simp add: keys_update_present)
  qed
qed

lemma set_user_counts_ok_iff:
  "(\<exists>groups'. set_user_counts groups counts = Inr groups') \<longleftrightarrow> fst ` set counts \<subseteq> fst ` set groups"
proof (induction groups counts rule: set_user_counts.induct)
  case (1 groups)
  then show ?case by simp
next
  case (2 groups ident user_count rest)
  show ?case
  proof (cases "map_of groups ident")
    case None
    then have "ident \<notin> fst ` set groups" by (simp add: map_of_None_iff)
    with None show ?thesis by auto
  next
    case (Some grp)
    then have "ident \<in> fst ` set groups" by (metis map_of_None_iff option.distinct(1))
    with Some 2 show ?thesis by (simp add: keys_update_present)
  qed
qed

lemma set_event_counts_keys:
  "set_event_counts groups counts = Inr groups' \<Longrightarrow> fst ` set groups' = fst ` set groups"
  by (induction groups counts rule: set_event_counts.induct)
    (auto split: option.splits simp: keys_update_present)

lemma set_user_counts_keys:
  "set_user_counts groups counts = Inr groups' \<Longrightarrow> fst ` set groups' = fst ` set groups"
  by (induction groups counts rule: set_user_counts.induct)
    (auto split: option.splits simp: keys_update_present)

text \<open>
  An entry of the result comes from an entry of the argument with the same key; it has the
  same user count, and it is unchanged unless its key has a count entry.
\<close>

lemma set_event_counts_entry:
  "set_event_counts groups counts = Inr groups' \<Longrightarrow> (i, g) \<in> set groups' \<Longrightarrow>
     \<exists>g0. (i, g0) \<in> set groups \<and> group_user_count g = group_user_count g0 \<and>
          (i \<notin> fst ` set counts \<longrightarrow> g = g0)"
proof (induction groups counts arbitrary: groups' rule: set_event_counts.induct)
  case (1 groups)
  then show ?case by auto
next
  case (2 groups ident event_count rest)
  from "2.prems"(1) obtain grp where grp: "map_of groups ident = Some grp"
    and run: "set_event_counts (AList.update ident (grp\<lparr>group_event_count := event_count\<rparr>) groups) rest
                = Inr groups'"
    by (auto split: option.splits)
  from "2.IH" [OF grp run "2.prems"(2)]
  obtain g1 where g1: "(i, g1) \<in> set (AList.update ident (grp\<lparr>group_event_count := event_count\<rparr>) groups)"
    and u: "group_user_count g = group_user_count g1" and e: "i \<notin> fst ` set rest \<longrightarrow> g = g1"
    by blast
  from update_entry_cases [OF g1] show ?case
  proof
    assume "(i, g1) \<in> set groups"
    show ?thesis
    proof (cases "i = ident")
      case True
      with grp have "(i, grp) \<in> set groups" by (simp add: map_of_SomeD)
      moreover have "(i, g1) \<in> set groups" by fact
      ultimately show ?thesis using u e True by auto
    next
      case False
      with \<open>(i, g1) \<in> set groups\<close> u e show ?thesis by auto
    qed
  next
    assume a: "i = ident \<and> g1 = grp\<lparr>group_event_count := event_count\<rparr>"
    with grp have "(i, grp) \<in> set groups" by (simp add: map_of_SomeD)
    with a u show ?thesis by auto
  qed
qed

lemma set_user_counts_entry:
  "set_user_counts groups counts = Inr groups' \<Longrightarrow> (i, g) \<in> set groups' \<Longrightarrow>
     \<exists>g0. (i, g0) \<in> set groups \<and> group_event_count g = group_event_count g0 \<and>
          (i \<notin> fst ` set counts \<longrightarrow> g = g0)"
proof (induction groups counts arbitrary: groups' rule: set_user_counts.induct)
  case (1 groups)
  then show ?case by auto
next
  case (2 groups ident user_count rest)
  from "2.prems"(1) obtain grp where grp: "map_of groups ident = Some grp"
    and run: "set_user_counts (AList.update ident (grp\<lparr>group_user_count := user_count\<rparr>) groups) rest
                = Inr groups'"
    by (auto split: option.splits)
  from "2.IH" [OF grp run "2.prems"(2)]
  obtain g1 where g1: "(i, g1) \<in> set (AList.update ident (grp\<lparr>group_user_count := user_count\<rparr>) groups)"
    and u: "group_event_count g = group_event_count g1" and e: "i \<notin> fst ` set rest \<longrightarrow> g = g1"
    by blast
  from update_entry_cases [OF g1] show ?case
  proof
    assume "(i, g1) \<in> set groups"
    show ?thesis
    proof (cases "i = ident")
      case True
      with grp have "(i, grp) \<in> set groups" by (simp add: map_of_SomeD)
      moreover have "(i, g1) \<in> set groups" by fact
      ultimately show ?thesis using u e True by auto
    next
      case False
      with \<open>(i, g1) \<in> set groups\<close> u e show ?thesis by auto
    qed
  next
    assume a: "i = ident \<and> g1 = grp\<lparr>group_user_count := user_count\<rparr>"
    with grp have "(i, grp) \<in> set groups" by (simp add: map_of_SomeD)
    with a u show ?thesis by auto
  qed
qed

lemma attach_state_assertion_iff:
  "attach_state project groups rules event_counts user_counts = Inl AssertionError
     \<longleftrightarrow> \<not> owned project groups rules"
  by (auto simp: attach_state_def attach_groups_eq attach_rules_eq owned_def
      split: sum.splits dest: set_event_counts_error set_user_counts_error)

lemma attach_state_ok_iff:
  "(\<exists>st. attach_state project groups rules event_counts user_counts = Inr st)
     \<longleftrightarrow> owned project groups rules \<and> fst ` set event_counts \<subseteq> fst ` set groups
          \<and> fst ` set user_counts \<subseteq> fst ` set groups"
proof (cases "owned project groups rules")
  case False
  then have "attach_state project groups rules event_counts user_counts = Inl AssertionError"
    by (simp add: attach_state_assertion_iff)
  with False show ?thesis by simp
next
  case True
  then obtain groups1 rules1 where g1: "attach_groups project groups = Inr groups1"
    and r1: "attach_rules project rules = Inr rules1"
    by (auto simp: owned_def attach_groups_eq attach_rules_eq)
  have k1: "fst ` set groups1 = fst ` set groups" by (rule attach_groups_keys [OF g1])
  show ?thesis
  proof (cases "set_event_counts groups1 event_counts")
    case (Inl e)
    with set_event_counts_ok_iff [of groups1 event_counts] k1
    have "\<not> fst ` set event_counts \<subseteq> fst ` set groups" by auto
    with Inl g1 r1 show ?thesis by (simp add: attach_state_def)
  next
    case (Inr groups2)
    with set_event_counts_ok_iff [of groups1 event_counts] k1
    have e: "fst ` set event_counts \<subseteq> fst ` set groups" by auto
    have k2: "fst ` set groups2 = fst ` set groups"
      using set_event_counts_keys [OF Inr] k1 by simp
    have "(\<exists>st. attach_state project groups rules event_counts user_counts = Inr st)
            \<longleftrightarrow> (\<exists>groups3. set_user_counts groups2 user_counts = Inr groups3)"
      using g1 r1 Inr by (auto simp: attach_state_def split: sum.splits)
    with set_user_counts_ok_iff [of groups2 user_counts] k2 e True show ?thesis by simp
  qed
qed

lemma attach_state_error:
  "attach_state project groups rules event_counts user_counts = Inl e \<Longrightarrow>
     e = (if owned project groups rules then KeyError else AssertionError)"
  by (auto simp: attach_state_def attach_groups_eq attach_rules_eq owned_def
      split: sum.splits if_splits dest: set_event_counts_error set_user_counts_error)

lemma attach_state_counts:
  assumes "attach_state project groups rules event_counts user_counts = Inr st"
    and "(i, g) \<in> set (attached_groups st)"
  shows "(i \<notin> fst ` set event_counts \<longrightarrow> group_event_count g = 0) \<and>
         (i \<notin> fst ` set user_counts \<longrightarrow> group_user_count g = 0)"
proof -
  from assms(1) obtain groups1 rules1 groups2 groups3
    where g1: "attach_groups project groups = Inr groups1"
      and g2: "set_event_counts groups1 event_counts = Inr groups2"
      and g3: "set_user_counts groups2 user_counts = Inr groups3"
      and st: "attached_groups st = groups3"
    by (auto simp: attach_state_def split: sum.splits)
  from assms(2) st have "(i, g) \<in> set groups3" by simp
  from set_user_counts_entry [OF g3 this]
  obtain ga where ga: "(i, ga) \<in> set groups2" "group_event_count g = group_event_count ga"
    "i \<notin> fst ` set user_counts \<longrightarrow> g = ga" by blast
  from set_event_counts_entry [OF g2 ga(1)]
  obtain gb where gb: "(i, gb) \<in> set groups1" "group_user_count ga = group_user_count gb"
    "i \<notin> fst ` set event_counts \<longrightarrow> ga = gb" by blast
  from g1 gb(1) have zero: "group_event_count gb = 0" "group_user_count gb = 0"
    by (auto simp: attach_groups_eq split: if_splits)
  from ga gb zero show ?thesis by auto
qed

section \<open>The pipeline as a function of the surviving records\<close>

lemma Pipeline_map_returns: "Pipeline_map (returns f) xs = Inr (map f xs)"
  by (induction xs) (simp_all add: returns_def)

lemma Pipeline_filter_returns: "Pipeline_filter (returns p) xs = Inr (filter p xs)"
  by (induction xs) (simp_all add: returns_def)

lemma somes_filter_py_bool: "somes (filter py_bool xs) = somes xs"
  by (induction xs) (auto simp: somes_def py_bool_def split: option.splits)

lemma somes_Cons: "somes (x # xs) = (case x of None \<Rightarrow> somes xs | Some y \<Rightarrow> y # somes xs)"
  by (simp add: somes_def split: option.splits)

lemma somes_Nil: "somes [] = []"
  by (simp add: somes_def)

lemma set_somes: "set (somes xs) = {y. Some y \<in> set xs}"
  by (induction xs) (auto simp: somes_Cons somes_Nil split: option.splits)


lemma rewrite_record_Some:
  "snd (rewrite_record record project groups rules) = Some r \<Longrightarrow>
     \<exists>grp. map_of groups (event_group_id (notification_event (record_value record))) = Some grp \<and>
           record_group r = Some grp"
  by (auto simp: rewrite_record_def Let_def record_group_def split: option.splits)


lemma rewritten_group:
  "r \<in> set (rewritten state records) \<Longrightarrow> \<exists>grp. record_group r = Some grp"
  by (auto simp: rewritten_def set_somes dest!: rewrite_record_Some [OF sym])


lemma survivors_group:
  "r \<in> set (survivors state records) \<Longrightarrow> \<exists>grp. record_group r = Some grp \<and> get_status grp = UNRESOLVED"
  by (auto simp: survivors_def unresolved_def dest!: rewritten_group split: option.splits)


lemma Pipeline_filter_check_group_state:
  "\<forall>r \<in> set xs. \<exists>grp. record_group r = Some grp \<Longrightarrow>
     Pipeline_filter check_group_state xs = Inr (filter unresolved xs)"
  by (induction xs) (auto simp: check_group_state_def unresolved_def record_group_def)

lemma reduce_group_records:
  "\<forall>r \<in> set xs. \<exists>grp. record_group r = Some grp \<Longrightarrow>
     reduce group_records xs acc = Inr (foldl group_records_total acc xs)"
  by (induction xs arbitrary: acc)
    (auto simp: group_records_def group_records_total_def record_group_def)



text \<open>The pipeline never raises, and its result is the sorted grouping of the survivors.\<close>

lemma digest_pipeline_eq:
  "digest_pipeline state records =
     Inr (sort_rule_groups (sort_group_contents (grouped (survivors state records))))"
proof -
  have g: "\<forall>r \<in> set (rewritten state records). \<exists>grp. record_group r = Some grp"
    by (blast dest: rewritten_group)
  have s: "\<forall>r \<in> set (survivors state records). \<exists>grp. record_group r = Some grp"
    by (blast dest: survivors_group)
  show ?thesis
    unfolding digest_pipeline_def then_stage_def Pipeline_apply_def Pipeline_reduce_def
    by (simp add: Pipeline_map_returns Pipeline_filter_returns returns_def somes_filter_py_bool
        rewritten_def [symmetric] Pipeline_filter_check_group_state [OF g]
        survivors_def [symmetric] reduce_group_records [OF s] grouped_def)
qed

lemma build_state_Some:
  "build_state env project records (Some s) =
     attach_state (state_project s) (state_groups s) (state_rules s)
       (state_event_counts s) (state_user_counts s)"
  by (simp add: build_state_def)

lemma build_digest_eq:
  "build_digest env project records state =
     (if records = [] then Inr None
      else case build_state env project records state of
             Inl e \<Rightarrow> Inl e
           | Inr attached \<Rightarrow>
               Inr (Some (sort_rule_groups (sort_group_contents
                            (grouped (survivors attached records))))))"
  by (simp add: build_digest_def build_state_def digest_pipeline_eq split: sum.splits option.splits)

lemma build_digest_SomeD:
  assumes "build_digest env project records state = Inr (Some d)"
  obtains attached where "records \<noteq> []" "build_state env project records state = Inr attached"
    "d = sort_rule_groups (sort_group_contents (grouped (survivors attached records)))"
  using assms by (auto simp: build_digest_eq split: if_splits sum.splits)

subsection \<open>The grouping fold\<close>

lemma group_leaf_append_to_group:
  "group_leaf (append_to_group inner g r) gid
     = group_leaf inner gid @ (if group_id g = gid then [r] else [])"
  by (induction inner) auto

lemma digest_leaf_append_to_rule:
  "digest_leaf (append_to_rule d rule g r) rid gid
     = digest_leaf d rid gid @ (if rule_id rule = rid \<and> group_id g = gid then [r] else [])"
  by (induction d) (auto simp: group_leaf_append_to_group)

lemma digest_leaf_foldl_rules:
  "digest_leaf (foldl (\<lambda>d rule. append_to_rule d rule g r) d rules) rid gid
     = digest_leaf d rid gid @
       (if group_id g = gid
        then replicate (length (filter (\<lambda>rule. rule_id rule = rid) rules)) r else [])"
proof (induction rules arbitrary: d)
  case Nil
  then show ?case by simp
next
  case (Cons rule rules)
  show ?case
    by (simp add: Cons.IH digest_leaf_append_to_rule replicate_app_Cons_same)
qed

lemma digest_leaf_group_records_total:
  "digest_leaf (group_records_total d r) rid gid = digest_leaf d rid gid @ contribution r rid gid"
  by (simp add: group_records_total_def contribution_def digest_leaf_foldl_rules
      split: option.splits)

lemma digest_leaf_foldl:
  "digest_leaf (foldl group_records_total d xs) rid gid
     = digest_leaf d rid gid @ expected_leaf xs rid gid"
  by (induction xs arbitrary: d) (simp_all add: expected_leaf_def digest_leaf_group_records_total)

lemma digest_leaf_grouped: "digest_leaf (grouped xs) rid gid = expected_leaf xs rid gid"
  by (simp add: grouped_def digest_leaf_foldl)

lemma group_key_in_keys: "(g, leaf) \<in> set inner \<Longrightarrow> group_id g \<in> (\<lambda>x. group_id (fst x)) ` set inner"
  by force

lemma rule_key_in_keys: "(r, inner) \<in> set d \<Longrightarrow> rule_id r \<in> (\<lambda>x. rule_id (fst x)) ` set d"
  by force

lemma keys_append_to_group:
  "map (\<lambda>x. group_id (fst x)) (append_to_group inner g r)
     = (if group_id g \<in> set (map (\<lambda>x. group_id (fst x)) inner) then map (\<lambda>x. group_id (fst x)) inner
        else map (\<lambda>x. group_id (fst x)) inner @ [group_id g])"
  by (induction inner) (auto dest: group_key_in_keys)

lemma keys_append_to_rule:
  "map (\<lambda>x. rule_id (fst x)) (append_to_rule d rule g r)
     = (if rule_id rule \<in> set (map (\<lambda>x. rule_id (fst x)) d) then map (\<lambda>x. rule_id (fst x)) d
        else map (\<lambda>x. rule_id (fst x)) d @ [rule_id rule])"
  by (induction d) (auto dest: rule_key_in_keys)

lemma set_append_to_group:
  "set (append_to_group inner g r)
     \<subseteq> set inner \<union> {(g, [r])} \<union> {(g0, leaf0 @ [r]) | g0 leaf0. (g0, leaf0) \<in> set inner}"
proof (induction inner)
  case Nil
  then show ?case by simp
next
  case (Cons x inner)
  obtain g0 leaf0 where x: "x = (g0, leaf0)" by (cases x)
  show ?case
  proof (cases "group_id g0 = group_id g")
    case True
    with x show ?thesis by auto
  next
    case False
    with x Cons.IH show ?thesis by auto
  qed
qed

lemma append_to_group_leaf_ne:
  assumes "(g', leaf) \<in> set (append_to_group inner g r)" and "\<forall>y \<in> set inner. snd y \<noteq> []"
  shows "leaf \<noteq> []"
proof -
  from assms(1) set_append_to_group [of inner g r]
  consider "(g', leaf) \<in> set inner" | "leaf = [r]"
    | leaf0 where "leaf = leaf0 @ [r]" by blast
  then show ?thesis
  proof cases
    case 1
    with assms(2) have "snd (g', leaf) \<noteq> []" by blast
    then show ?thesis by simp
  qed simp_all
qed

lemma append_to_group_key:
  assumes "(g', leaf) \<in> set (append_to_group inner g r)"
  shows "g' = g \<or> g' \<in> fst ` set inner"
proof -
  from assms set_append_to_group [of inner g r]
  consider "(g', leaf) \<in> set inner" | "g' = g"
    | leaf0 where "(g', leaf0) \<in> set inner" by blast
  then show ?thesis by cases force+
qed

lemma append_to_group_ne: "append_to_group inner g r \<noteq> []"
  by (cases inner) (auto split: if_splits)

lemma set_append_to_rule:
  "set (append_to_rule d rule g r)
     \<subseteq> set d \<union> {(rule, [(g, [r])])}
         \<union> {(r0, append_to_group inner0 g r) | r0 inner0. (r0, inner0) \<in> set d}"
proof (induction d)
  case Nil
  then show ?case by simp
next
  case (Cons x d)
  obtain r0 inner0 where x: "x = (r0, inner0)" by (cases x)
  show ?case
  proof (cases "rule_id r0 = rule_id rule")
    case True
    with x show ?thesis by auto
  next
    case False
    with x Cons.IH show ?thesis by auto
  qed
qed

lemma append_to_rule_entry:
  assumes "(r', inner) \<in> set (append_to_rule d rule g r)"
  shows "(r' = rule \<and> inner = [(g, [r])]) \<or> (r', inner) \<in> set d \<or>
     (\<exists>inner0. (r', inner0) \<in> set d \<and> inner = append_to_group inner0 g r)"
  using assms set_append_to_rule [of d rule g r] by blast

lemma wf_digest_append_to_rule:
  assumes "wf_digest d"
  shows "wf_digest (append_to_rule d rule g r)"
proof -
  have d: "distinct (map (\<lambda>x. rule_id (fst x)) (append_to_rule d rule g r))"
    using assms by (simp add: wf_digest_def keys_append_to_rule)
  have "distinct (map (\<lambda>x. group_id (fst x)) inner) \<and> inner \<noteq> [] \<and> (\<forall>y \<in> set inner. snd y \<noteq> [])"
    if "(r', inner) \<in> set (append_to_rule d rule g r)" for r' inner
    using append_to_rule_entry [OF that]
  proof (elim disjE exE conjE)
    assume "r' = rule" "inner = [(g, [r])]"
    then show ?thesis by simp
  next
    assume "(r', inner) \<in> set d"
    with assms show ?thesis by (force simp: wf_digest_def)
  next
    fix inner0
    assume a: "(r', inner0) \<in> set d" "inner = append_to_group inner0 g r"
    with assms have w: "distinct (map (\<lambda>x. group_id (fst x)) inner0)" "\<forall>y \<in> set inner0. snd y \<noteq> []"
      by (force simp: wf_digest_def)+
    have "\<forall>y \<in> set inner. snd y \<noteq> []"
    proof
      fix y assume "y \<in> set inner"
      then have "(fst y, snd y) \<in> set (append_to_group inner0 g r)" using a(2) by simp
      from append_to_group_leaf_ne [OF this w(2)] show "snd y \<noteq> []" .
    qed
    with w(1) a(2) show ?thesis by (simp add: keys_append_to_group append_to_group_ne)
  qed
  then have "\<forall>x \<in> set (append_to_rule d rule g r).
      distinct (map (\<lambda>x. group_id (fst x)) (snd x)) \<and> snd x \<noteq> [] \<and> (\<forall>y \<in> set (snd x). snd y \<noteq> [])"
    by (metis prod.collapse)
  with d show ?thesis by (simp add: wf_digest_def)
qed

lemma wf_digest_foldl_rules:
  "wf_digest d \<Longrightarrow> wf_digest (foldl (\<lambda>d rule. append_to_rule d rule g r) d rules)"
  by (induction rules arbitrary: d) (simp_all add: wf_digest_append_to_rule)

lemma wf_digest_group_records_total: "wf_digest d \<Longrightarrow> wf_digest (group_records_total d r)"
  by (simp add: group_records_total_def wf_digest_foldl_rules split: option.splits)

lemma wf_digest_foldl: "wf_digest d \<Longrightarrow> wf_digest (foldl group_records_total d xs)"
  by (induction xs arbitrary: d) (simp_all add: wf_digest_group_records_total)

lemma wf_digest_Nil: "wf_digest []"
  by (simp add: wf_digest_def)

lemma wf_digest_grouped: "wf_digest (grouped xs)"
  unfolding grouped_def by (rule wf_digest_foldl) (rule wf_digest_Nil)

lemma group_leaf_member:
  "distinct (map (\<lambda>x. group_id (fst x)) inner) \<Longrightarrow> (g, leaf) \<in> set inner \<Longrightarrow>
     group_leaf inner (group_id g) = leaf"
proof (induction inner)
  case Nil
  then show ?case by simp
next
  case (Cons x inner)
  obtain g0 leaf0 where x: "x = (g0, leaf0)" by (cases x)
  show ?case
  proof (cases "(g, leaf) = (g0, leaf0)")
    case True
    with x show ?thesis by simp
  next
    case False
    with Cons.prems(2) x have m: "(g, leaf) \<in> set inner" by auto
    from Cons.prems(1) x have "group_id g0 \<notin> (\<lambda>x. group_id (fst x)) ` set inner"
      by simp
    with group_key_in_keys [OF m] have "group_id g0 \<noteq> group_id g" by metis
    moreover from Cons.prems(1) have "distinct (map (\<lambda>x. group_id (fst x)) inner)" by simp
    ultimately show ?thesis using x Cons.IH m by simp
  qed
qed

lemma digest_leaf_member:
  "wf_digest d \<Longrightarrow> (r, inner) \<in> set d \<Longrightarrow> (g, leaf) \<in> set inner \<Longrightarrow>
     digest_leaf d (rule_id r) (group_id g) = leaf"
proof (induction d)
  case Nil
  then show ?case by simp
next
  case (Cons x d)
  obtain r0 inner0 where x: "x = (r0, inner0)" by (cases x)
  from Cons.prems(1) have wf: "wf_digest d" by (simp add: wf_digest_def)
  show ?case
  proof (cases "(r, inner) = (r0, inner0)")
    case True
    moreover from Cons.prems(1) x have "distinct (map (\<lambda>x. group_id (fst x)) inner0)"
      by (simp add: wf_digest_def)
    ultimately show ?thesis using Cons.prems(3) x by (simp add: group_leaf_member)
  next
    case False
    with Cons.prems(2) x have m: "(r, inner) \<in> set d" by auto
    then have "rule_id r \<in> (\<lambda>x. rule_id (fst x)) ` set d" by (rule rule_key_in_keys)
    moreover from Cons.prems(1) x have "rule_id r0 \<notin> (\<lambda>x. rule_id (fst x)) ` set d"
      by (simp add: wf_digest_def)
    ultimately have "rule_id r0 \<noteq> rule_id r" by metis
    with x Cons.IH [OF wf m Cons.prems(3)] show ?thesis by simp
  qed
qed

lemma group_leaf_exists:
  "group_leaf inner gid \<noteq> [] \<Longrightarrow> \<exists>g. group_id g = gid \<and> (g, group_leaf inner gid) \<in> set inner"
  by (induction inner) (auto split: if_splits)

lemma digest_leaf_exists:
  "digest_leaf d rid gid \<noteq> [] \<Longrightarrow>
     \<exists>r inner g. rule_id r = rid \<and> group_id g = gid \<and> (r, inner) \<in> set d \<and>
                 (g, digest_leaf d rid gid) \<in> set inner"
proof (induction d)
  case Nil
  then show ?case by simp
next
  case (Cons x d)
  obtain r0 inner0 where x: "x = (r0, inner0)" by (cases x)
  show ?case
  proof (cases "rule_id r0 = rid")
    case True
    with Cons.prems x have "group_leaf inner0 gid \<noteq> []" by simp
    from group_leaf_exists [OF this] True x show ?thesis by fastforce
  next
    case False
    with Cons.prems x have "digest_leaf d rid gid \<noteq> []" by simp
    from Cons.IH [OF this] False x show ?thesis by fastforce
  qed
qed

lemma inner_keys_all_append_to_rule:
  assumes "inner_keys_all Q d" and "Q g"
  shows "inner_keys_all Q (append_to_rule d rule g r)"
  unfolding inner_keys_all_def
proof (intro ballI)
  fix x y
  assume x: "x \<in> set (append_to_rule d rule g r)" and y: "y \<in> set (snd x)"
  from x have "(fst x, snd x) \<in> set (append_to_rule d rule g r)" by simp
  from append_to_rule_entry [OF this]
  consider "snd x = [(g, [r])]" | "(fst x, snd x) \<in> set d"
    | inner0 where "(fst x, inner0) \<in> set d" "snd x = append_to_group inner0 g r"
    by blast
  then show "Q (fst y)"
  proof cases
    case 1
    with y assms(2) show ?thesis by simp
  next
    case 2
    with assms(1) y show ?thesis by (force simp: inner_keys_all_def)
  next
    case 3
    from y 3(2) have "(fst y, snd y) \<in> set (append_to_group inner0 g r)" by simp
    from append_to_group_key [OF this] have "fst y = g \<or> fst y \<in> fst ` set inner0" .
    then show ?thesis
    proof
      assume "fst y = g"
      with assms(2) show ?thesis by simp
    next
      assume "fst y \<in> fst ` set inner0"
      then obtain y0 where "y0 \<in> set inner0" "fst y0 = fst y" by auto
      with assms(1) 3(1) show ?thesis by (force simp: inner_keys_all_def)
    qed
  qed
qed

lemma inner_keys_all_foldl_rules:
  "inner_keys_all Q d \<Longrightarrow> Q g \<Longrightarrow>
     inner_keys_all Q (foldl (\<lambda>d rule. append_to_rule d rule g r) d rules)"
  by (induction rules arbitrary: d) (simp_all add: inner_keys_all_append_to_rule)

lemma inner_keys_all_foldl:
  "inner_keys_all Q d \<Longrightarrow> \<forall>rec \<in> set xs. \<forall>g. record_group rec = Some g \<longrightarrow> Q g \<Longrightarrow>
     inner_keys_all Q (foldl group_records_total d xs)"
proof (induction xs arbitrary: d)
  case Nil
  then show ?case by simp
next
  case (Cons rec xs)
  have "inner_keys_all Q (group_records_total d rec)"
    using Cons.prems
    by (auto simp: group_records_total_def inner_keys_all_foldl_rules split: option.splits)
  with Cons show ?case by simp
qed

lemma grouped_key_group:
  assumes "(r, inner) \<in> set (grouped xs)" and "(g, leaf) \<in> set inner"
  shows "\<exists>rec \<in> set xs. record_group rec = Some g"
proof -
  have "inner_keys_all (\<lambda>g. \<exists>rec \<in> set xs. record_group rec = Some g) (grouped xs)"
    unfolding grouped_def
    by (rule inner_keys_all_foldl) (auto simp: inner_keys_all_def)
  with assms show ?thesis by (force simp: inner_keys_all_def)
qed

lemma expected_leaf_member:
  assumes "rec \<in> set (expected_leaf xs rid gid)"
  shows "rec \<in> set xs \<and> (\<exists>g. record_group rec = Some g \<and> group_id g = gid) \<and>
         (\<exists>rule \<in> set (notification_rules (record_value rec)). rule_id rule = rid)"
proof -
  from assms obtain x where x: "x \<in> set xs" "rec \<in> set (contribution x rid gid)"
    by (auto simp: expected_leaf_def)
  from x(2) have eq: "rec = x" and g: "\<exists>g. record_group x = Some g \<and> group_id g = gid"
    and n: "filter (\<lambda>rule. rule_id rule = rid) (notification_rules (record_value x)) \<noteq> []"
    by (cases "record_group x"; auto simp: contribution_def split: if_splits)+
  from n obtain rule where "rule \<in> set (notification_rules (record_value x))" "rule_id rule = rid"
    by (metis (mono_tags, lifting) filter_False)
  with x(1) eq g show ?thesis by blast
qed

lemma expected_leaf_member_conv:
  assumes "rec \<in> set xs" "record_group rec = Some g"
    "rule \<in> set (notification_rules (record_value rec))"
  shows "rec \<in> set (expected_leaf xs (rule_id rule) (group_id g))"
proof -
  from assms(3) have "filter (\<lambda>x. rule_id x = rule_id rule) (notification_rules (record_value rec)) \<noteq> []"
    by (auto simp: filter_empty_conv)
  with assms(2) have "rec \<in> set (contribution rec (rule_id rule) (group_id g))"
    by (simp add: contribution_def)
  with assms(1) show ?thesis by (auto simp: expected_leaf_def)
qed

lemma distinct_map_eq: "distinct (map f xs) \<Longrightarrow> a \<in> set xs \<Longrightarrow> b \<in> set xs \<Longrightarrow> f a = f b \<Longrightarrow> a = b"
  by (auto simp: distinct_map dest: inj_onD)

lemma count_filter_distinct:
  "distinct (map f xs) \<Longrightarrow>
     length (filter (\<lambda>x. f x = a) xs) = (if a \<in> f ` set xs then 1 else 0)"
  by (induction xs) (auto simp: image_iff)

lemma contribution_distinct:
  assumes "distinct (map rule_id (notification_rules (record_value rec)))"
  shows "contribution rec rid gid =
           (if map_option group_id (record_group rec) = Some gid \<and>
               rid \<in> rule_id ` set (notification_rules (record_value rec))
            then [rec] else [])"
  by (cases "record_group rec") (simp_all add: contribution_def count_filter_distinct [OF assms])

lemma expected_leaf_distinct:
  assumes "\<forall>rec \<in> set xs. distinct (map rule_id (notification_rules (record_value rec)))"
  shows "expected_leaf xs rid gid =
           filter (\<lambda>rec. map_option group_id (record_group rec) = Some gid \<and>
                         rid \<in> rule_id ` set (notification_rules (record_value rec))) xs"
  using assms by (induction xs) (simp_all add: expected_leaf_def contribution_distinct)

subsection \<open>The two sorts\<close>

lemma set_sorted_reverse: "set (sorted_reverse key_of xs) = set xs"
  by (simp add: sorted_reverse_def)

lemma length_sorted_reverse: "length (sorted_reverse key_of xs) = length xs"
  by (simp add: sorted_reverse_def)

lemma sorted_reverse_descending:
  "sorted_wrt (\<lambda>a b. key_of b \<le> key_of a) (sorted_reverse key_of xs)"
proof -
  have "sorted (map key_of (sort_key key_of (rev xs)))" by (rule sorted_sort_key)
  then have "sorted_wrt (\<lambda>a b. key_of a \<le> key_of b) (sort_key key_of (rev xs))"
    by (simp add: sorted_map)
  then show ?thesis by (simp add: sorted_reverse_def sorted_wrt_rev)
qed

lemma sorted_reverse_before:
  assumes "i < length (sorted_reverse key_of xs)" "j < length (sorted_reverse key_of xs)"
    and "key_of (sorted_reverse key_of xs ! j) < key_of (sorted_reverse key_of xs ! i)"
  shows "i < j"
proof (rule ccontr)
  assume "\<not> i < j"
  then consider "j = i" | "j < i" by linarith
  then show False
  proof cases
    case 1
    with assms(3) show False by simp
  next
    case 2
    from sorted_wrt_nth_less [OF sorted_reverse_descending 2 assms(1)]
    have "key_of (sorted_reverse key_of xs ! i) \<le> key_of (sorted_reverse key_of xs ! j)" .
    with assms(3) show False by simp
  qed
qed

lemma distinct_map_sorted_reverse:
  "distinct (map f (sorted_reverse key_of xs)) = distinct (map f xs)"
  by (simp add: distinct_map sorted_reverse_def)

lemma sort_group_contents_eq:
  "sort_group_contents d = map (\<lambda>x. (fst x, sorted_reverse count_key (snd x))) d"
  by (simp add: sort_group_contents_def count_key_def [abs_def] case_prod_beta)

lemma final_entry:
  assumes "(r, inner) \<in> set (sort_rule_groups (sort_group_contents d))"
  shows "\<exists>inner0. (r, inner0) \<in> set d \<and> inner = sorted_reverse count_key inner0"
  using assms by (auto simp: sort_rule_groups_def set_sorted_reverse sort_group_contents_eq)

lemma final_entry_conv:
  assumes "(r, inner0) \<in> set d"
  shows "(r, sorted_reverse count_key inner0) \<in> set (sort_rule_groups (sort_group_contents d))"
  using assms by (force simp: sort_rule_groups_def set_sorted_reverse sort_group_contents_eq)

lemma final_rule_keys:
  "distinct (map (\<lambda>x. rule_id (fst x)) (sort_rule_groups (sort_group_contents d)))
     = distinct (map (\<lambda>x. rule_id (fst x)) d)"
  by (simp add: sort_rule_groups_def distinct_map_sorted_reverse sort_group_contents_eq comp_def)

lemma final_leaf:
  assumes "(r, inner) \<in> set (sort_rule_groups (sort_group_contents (grouped xs)))"
    and "(g, leaf) \<in> set inner"
  shows "\<exists>inner0. (r, inner0) \<in> set (grouped xs) \<and> (g, leaf) \<in> set inner0 \<and>
           leaf = expected_leaf xs (rule_id r) (group_id g)"
proof -
  from final_entry [OF assms(1)] obtain inner0
    where i0: "(r, inner0) \<in> set (grouped xs)" "inner = sorted_reverse count_key inner0"
    by blast
  with assms(2) have m: "(g, leaf) \<in> set inner0" by (simp add: set_sorted_reverse)
  from digest_leaf_member [OF wf_digest_grouped i0(1) m]
  have "leaf = expected_leaf xs (rule_id r) (group_id g)" by (simp add: digest_leaf_grouped)
  with i0(1) m show ?thesis by blast
qed

lemma digest_keys_distinct:
  assumes "build_digest env project records state = Inr (Some d)"
  shows "distinct (map (\<lambda>x. rule_id (fst x)) d) \<and>
         (\<forall>x \<in> set d. distinct (map (\<lambda>y. group_id (fst y)) (snd x)))"
proof -
  from assms obtain attached where
    d: "d = sort_rule_groups (sort_group_contents (grouped (survivors attached records)))"
    by (rule build_digest_SomeD)
  let ?d0 = "grouped (survivors attached records)"
  have wf: "wf_digest ?d0" by (rule wf_digest_grouped)
  have "distinct (map (\<lambda>y. group_id (fst y)) (snd x))" if x: "x \<in> set d" for x
  proof -
    from x have "(fst x, snd x) \<in> set (sort_rule_groups (sort_group_contents ?d0))"
      by (simp add: d)
    from final_entry [OF this] obtain inner0
      where i0: "(fst x, inner0) \<in> set ?d0" and s: "snd x = sorted_reverse count_key inner0"
      by blast
    from wf i0 have "distinct (map (\<lambda>y. group_id (fst y)) inner0)"
      by (force simp: wf_digest_def)
    then show ?thesis by (simp add: s distinct_map_sorted_reverse)
  qed
  moreover have "distinct (map (\<lambda>x. rule_id (fst x)) d)"
    using wf by (simp add: d final_rule_keys wf_digest_def)
  ultimately show ?thesis by blast
qed

subsection \<open>The example, evaluated\<close>

lemmas ex_defs = ex_project_def ex_group_def ex_rule_def ex_state_def ex_record_def ex_records_def
  ex_env_def ex_attached_group_def ex_attached_rule_def ex_attached_def ex_rewritten_def
  ex_digest_def

lemma ex_attach_state:
  "attach_state (state_project ex_state) (state_groups ex_state) (state_rules ex_state)
     (state_event_counts ex_state) (state_user_counts ex_state) = Inr ex_attached"
  by (simp add: ex_defs attach_state_def)

lemma ex_build_state:
  "build_state ex_env ex_project ex_records (Some ex_state) = Inr ex_attached"
  by (simp add: build_state_Some ex_attach_state)

lemma ex_survivors:
  "survivors ex_attached ex_records =
     [ex_rewritten ''e1'' (ex_attached_group 10 UNRESOLVED 5 9)
        [ex_attached_rule 5, ex_attached_rule 6] 30,
      ex_rewritten ''e2'' (ex_attached_group 11 UNRESOLVED 10 2) [ex_attached_rule 5] 20]"
  by (simp add: ex_defs Let_def survivors_def rewritten_def rewrite_record_def somes_def unresolved_def
      record_group_def get_status_def)

lemma ex_build_digest:
  "build_digest ex_env ex_project ex_records (Some ex_state) = Inr (Some ex_digest)"
  unfolding build_digest_eq build_state_def
  apply (simp add: ex_attach_state ex_survivors)
  apply (simp add: ex_defs grouped_def group_records_total_def record_group_def
      sort_group_contents_def sort_rule_groups_def sorted_reverse_def)
  done

section \<open>Properties of the digest builder\<close>

subsection \<open>Empty and non-empty batches\<close>



subsection \<open>Sort order\<close>

text \<open>
  C2. In the result of \<open>build_digest\<close>, a rule with more entities than another one comes
  before it, and under one rule an entity whose pair of event count and user count is
  lexicographically greater than that of another one comes before it. Keys are unique at
  both levels, so the number of entries under a rule is its number of distinct entities.
\<close>

theorem digest_sort_order:
  assumes "build_digest env project records state = Inr (Some d)"
  shows "(\<forall>i j. i < length d \<and> j < length d \<and> length (snd (d ! j)) < length (snd (d ! i))
            \<longrightarrow> i < j) \<and>
         (\<forall>x \<in> set d. \<forall>i j. i < length (snd x) \<and> j < length (snd x) \<and>
            (group_event_count (fst (snd x ! j)) < group_event_count (fst (snd x ! i)) \<or>
             group_event_count (fst (snd x ! j)) = group_event_count (fst (snd x ! i)) \<and>
             group_user_count (fst (snd x ! j)) < group_user_count (fst (snd x ! i)))
            \<longrightarrow> i < j) \<and>
         distinct (map (\<lambda>x. rule_id (fst x)) d) \<and>
         (\<forall>x \<in> set d. distinct (map (\<lambda>y. group_id (fst y)) (snd x)))"
proof -
  from assms obtain attached where
    d: "d = sort_rule_groups (sort_group_contents (grouped (survivors attached records)))"
    by (rule build_digest_SomeD)
  let ?d0 = "grouped (survivors attached records)"
  have outer: "\<forall>i j. i < length d \<and> j < length d \<and> length (snd (d ! j)) < length (snd (d ! i))
            \<longrightarrow> i < j"
    unfolding d sort_rule_groups_def by (blast intro: sorted_reverse_before)
  have inner: "\<forall>i j. i < length (snd x) \<and> j < length (snd x) \<and>
            (group_event_count (fst (snd x ! j)) < group_event_count (fst (snd x ! i)) \<or>
             group_event_count (fst (snd x ! j)) = group_event_count (fst (snd x ! i)) \<and>
             group_user_count (fst (snd x ! j)) < group_user_count (fst (snd x ! i)))
            \<longrightarrow> i < j" if x: "x \<in> set d" for x
  proof -
    from x have "(fst x, snd x) \<in> set (sort_rule_groups (sort_group_contents ?d0))"
      by (simp add: d)
    from final_entry [OF this] obtain inner0
      where i0: "(fst x, inner0) \<in> set ?d0" and s: "snd x = sorted_reverse count_key inner0"
      by blast
    show "\<forall>i j. i < length (snd x) \<and> j < length (snd x) \<and>
            (group_event_count (fst (snd x ! j)) < group_event_count (fst (snd x ! i)) \<or>
             group_event_count (fst (snd x ! j)) = group_event_count (fst (snd x ! i)) \<and>
             group_user_count (fst (snd x ! j)) < group_user_count (fst (snd x ! i)))
            \<longrightarrow> i < j"
    proof (intro allI impI)
      fix i j
      assume a: "i < length (snd x) \<and> j < length (snd x) \<and>
            (group_event_count (fst (snd x ! j)) < group_event_count (fst (snd x ! i)) \<or>
             group_event_count (fst (snd x ! j)) = group_event_count (fst (snd x ! i)) \<and>
             group_user_count (fst (snd x ! j)) < group_user_count (fst (snd x ! i)))"
      then have "count_key (snd x ! j) < count_key (snd x ! i)"
        by (auto simp: count_key_def)
      with a show "i < j" unfolding s by (blast intro: sorted_reverse_before)
    qed
  qed
  from digest_keys_distinct [OF assms] outer inner show ?thesis by blast
qed

text \<open>
  In the example digest the rule with two groups precedes the rule with one, and the group
  with ten events precedes the group with five.
\<close>

theorem digest_sort_order_witness:
  "build_digest ex_env ex_project ex_records (Some ex_state) = Inr (Some ex_digest) \<and>
   length ex_digest = 2 \<and>
   length (snd (ex_digest ! 1)) < length (snd (ex_digest ! 0)) \<and>
   (0 :: nat) < 1 \<and>
   ex_digest ! 0 \<in> set ex_digest \<and>
   length (snd (ex_digest ! 0)) = 2 \<and>
   group_event_count (fst (snd (ex_digest ! 0) ! 1))
     < group_event_count (fst (snd (ex_digest ! 0) ! 0)) \<and>
   distinct (map (\<lambda>x. rule_id (fst x)) ex_digest)"
proof -
  have l: "length ex_digest = 2" "length (snd (ex_digest ! 0)) = 2"
    and m: "ex_digest ! 0 \<in> set ex_digest"
    and k: "length (snd (ex_digest ! 1)) < length (snd (ex_digest ! 0))"
      "group_event_count (fst (snd (ex_digest ! 0) ! 1))
         < group_event_count (fst (snd (ex_digest ! 0) ! 0))"
    by (simp_all add: ex_digest_def ex_attached_group_def)
  note th = digest_sort_order [OF ex_build_digest]
  from th [THEN conjunct1, THEN spec, THEN spec, of 0 1] l(1) k(1)
  have o: "(0 :: nat) < 1" by simp
  from th [THEN conjunct2, THEN conjunct2, THEN conjunct1]
  have d: "distinct (map (\<lambda>x. rule_id (fst x)) ex_digest)" .
  from ex_build_digest l(1) k(1) o m l(2) k(2) d show ?thesis by (intro conjI)
qed

subsection \<open>Leaves and statuses\<close>

text \<open>
  C3. In the mapping returned by \<open>build_digest\<close> every list of records is non-empty, every
  group that is an inner key has status UNRESOLVED as \<open>get_status\<close> reads it, and every
  record of a list belongs to a group with the id of its key whose status is UNRESOLVED.
\<close>

theorem digest_leaves_nonempty_and_unresolved:
  assumes "build_digest env project records state = Inr (Some d)"
    and "(r, inner) \<in> set d" and "(g, leaf) \<in> set inner"
  shows "leaf \<noteq> [] \<and> get_status g = UNRESOLVED \<and>
         (\<forall>rec \<in> set leaf. \<exists>g'. record_group rec = Some g' \<and> group_id g' = group_id g \<and>
                                get_status g' = UNRESOLVED)"
proof -
  from assms(1) obtain attached where
    d: "d = sort_rule_groups (sort_group_contents (grouped (survivors attached records)))"
    by (rule build_digest_SomeD)
  let ?xs = "survivors attached records"
  from final_leaf [OF assms(2) [unfolded d] assms(3)] obtain inner0
    where i0: "(r, inner0) \<in> set (grouped ?xs)" and m: "(g, leaf) \<in> set inner0"
      and leaf: "leaf = expected_leaf ?xs (rule_id r) (group_id g)"
    by blast
  from wf_digest_grouped [of ?xs] i0 m have ne: "leaf \<noteq> []" by (force simp: wf_digest_def)
  from grouped_key_group [OF i0 m] obtain rec where "rec \<in> set ?xs" "record_group rec = Some g"
    by blast
  with survivors_group [of rec attached records] have st: "get_status g = UNRESOLVED" by auto
  have "\<exists>g'. record_group rec = Some g' \<and> group_id g' = group_id g \<and> get_status g' = UNRESOLVED"
    if "rec \<in> set leaf" for rec
  proof -
    from that leaf expected_leaf_member [of rec ?xs "rule_id r" "group_id g"]
    obtain g' where "rec \<in> set ?xs" "record_group rec = Some g'" "group_id g' = group_id g"
      by blast
    with survivors_group [of rec attached records] show ?thesis by auto
  qed
  with ne st show ?thesis by blast
qed

text \<open>The first list under the first rule of the example digest.\<close>

theorem digest_leaves_nonempty_and_unresolved_witness:
  "build_digest ex_env ex_project ex_records (Some ex_state) = Inr (Some ex_digest) \<and>
   (fst (hd ex_digest), snd (hd ex_digest)) \<in> set ex_digest \<and>
   (fst (hd (snd (hd ex_digest))), snd (hd (snd (hd ex_digest)))) \<in> set (snd (hd ex_digest)) \<and>
   snd (hd (snd (hd ex_digest))) \<noteq> [] \<and>
   get_status (fst (hd (snd (hd ex_digest)))) = UNRESOLVED"
proof -
  have m1: "(fst (hd ex_digest), snd (hd ex_digest)) \<in> set ex_digest"
    by (simp add: ex_digest_def)
  have m2: "(fst (hd (snd (hd ex_digest))), snd (hd (snd (hd ex_digest)))) \<in> set (snd (hd ex_digest))"
    by (simp add: ex_digest_def)
  from digest_leaves_nonempty_and_unresolved [OF ex_build_digest m1 m2] ex_build_digest m1 m2
  show ?thesis by blast
qed

subsection \<open>The rewrite stage\<close>



subsection \<open>Ownership and counters in \<open>attach_state\<close>\<close>

text \<open>
  C5. \<open>attach_state\<close> raises \<open>AssertionError\<close> exactly when a group or a rule does not
  carry the id of the project, and \<open>build_digest\<close> then raises it too. When all of them
  belong to the project the assertion does not fail, every counter is set to zero before
  the counts are written, a group without an entry in the event counts (user counts) ends
  with event count (user count) 0, and the call returns when the counts name known groups
  only.
\<close>

theorem attach_state_ownership_and_zero_counts:
  "(attach_state project groups rules event_counts user_counts = Inl AssertionError
      \<longleftrightarrow> \<not> owned project groups rules) \<and>
   (records \<noteq> [] \<and>
    (case state of None \<Rightarrow> fetch_state env project' records | Some s' \<Rightarrow> Inr s') = Inr s \<and>
    \<not> owned (state_project s) (state_groups s) (state_rules s) \<longrightarrow>
      build_digest env project' records state = Inl AssertionError) \<and>
   (owned project groups rules \<longrightarrow>
      attach_state project groups rules [] [] =
        Inr \<lparr>attached_project = project,
             attached_groups =
               map (\<lambda>(i, g). (i, g\<lparr>group_project := Some project, group_event_count := 0,
                                     group_user_count := 0\<rparr>)) groups,
             attached_rules = map (\<lambda>(i, r). (i, r\<lparr>rule_project := Some project\<rparr>)) rules\<rparr>) \<and>
   (\<forall>st i g. attach_state project groups rules event_counts user_counts = Inr st \<and>
        (i, g) \<in> set (attached_groups st) \<longrightarrow>
        (i \<notin> fst ` set event_counts \<longrightarrow> group_event_count g = 0) \<and>
        (i \<notin> fst ` set user_counts \<longrightarrow> group_user_count g = 0)) \<and>
   (owned project groups rules \<and> fst ` set event_counts \<subseteq> fst ` set groups \<and>
      fst ` set user_counts \<subseteq> fst ` set groups \<longrightarrow>
      (\<exists>st. attach_state project groups rules event_counts user_counts = Inr st))"
proof (intro conjI)
  show "attach_state project groups rules event_counts user_counts = Inl AssertionError
      \<longleftrightarrow> \<not> owned project groups rules"
    by (rule attach_state_assertion_iff)
  show "records \<noteq> [] \<and>
    (case state of None \<Rightarrow> fetch_state env project' records | Some s' \<Rightarrow> Inr s') = Inr s \<and>
    \<not> owned (state_project s) (state_groups s) (state_rules s) \<longrightarrow>
      build_digest env project' records state = Inl AssertionError"
  proof
    assume a: "records \<noteq> [] \<and>
      (case state of None \<Rightarrow> fetch_state env project' records | Some s' \<Rightarrow> Inr s') = Inr s \<and>
      \<not> owned (state_project s) (state_groups s) (state_rules s)"
    then have "attach_state (state_project s) (state_groups s) (state_rules s)
        (state_event_counts s) (state_user_counts s) = Inl AssertionError"
      by (simp add: attach_state_assertion_iff)
    with a have "build_state env project' records state = Inl AssertionError"
      by (simp add: build_state_def)
    with a show "build_digest env project' records state = Inl AssertionError"
      by (simp add: build_digest_eq)
  qed
  show "owned project groups rules \<longrightarrow>
      attach_state project groups rules [] [] =
        Inr \<lparr>attached_project = project,
             attached_groups =
               map (\<lambda>(i, g). (i, g\<lparr>group_project := Some project, group_event_count := 0,
                                     group_user_count := 0\<rparr>)) groups,
             attached_rules = map (\<lambda>(i, r). (i, r\<lparr>rule_project := Some project\<rparr>)) rules\<rparr>"
    by (simp add: owned_def attach_state_def attach_groups_eq attach_rules_eq)
  show "\<forall>st i g. attach_state project groups rules event_counts user_counts = Inr st \<and>
        (i, g) \<in> set (attached_groups st) \<longrightarrow>
        (i \<notin> fst ` set event_counts \<longrightarrow> group_event_count g = 0) \<and>
        (i \<notin> fst ` set user_counts \<longrightarrow> group_user_count g = 0)"
    using attach_state_counts by blast
  show "owned project groups rules \<and> fst ` set event_counts \<subseteq> fst ` set groups \<and>
      fst ` set user_counts \<subseteq> fst ` set groups \<longrightarrow>
      (\<exists>st. attach_state project groups rules event_counts user_counts = Inr st)"
    by (simp add: attach_state_ok_iff)
qed

text \<open>
  In the example state group 12 has no counts and ends with both counters 0; a group of
  another project makes the call raise.
\<close>

theorem attach_state_ownership_and_zero_counts_witness:
  "owned ex_project (state_groups ex_state) (state_rules ex_state) \<and>
   attach_state ex_project (state_groups ex_state) (state_rules ex_state)
     (state_event_counts ex_state) (state_user_counts ex_state) = Inr ex_attached \<and>
   (12, ex_attached_group 12 RESOLVED 0 0) \<in> set (attached_groups ex_attached) \<and>
   12 \<notin> fst ` set (state_event_counts ex_state) \<and>
   12 \<notin> fst ` set (state_user_counts ex_state) \<and>
   group_event_count (ex_attached_group 12 RESOLVED 0 0) = 0 \<and>
   group_user_count (ex_attached_group 12 RESOLVED 0 0) = 0 \<and>
   \<not> owned ex_project [(10, (ex_group 10 UNRESOLVED)\<lparr>group_project_id := 2\<rparr>)] [] \<and>
   attach_state ex_project [(10, (ex_group 10 UNRESOLVED)\<lparr>group_project_id := 2\<rparr>)] [] [] []
     = Inl AssertionError"
proof -
  have a: "attach_state ex_project (state_groups ex_state) (state_rules ex_state)
     (state_event_counts ex_state) (state_user_counts ex_state) = Inr ex_attached"
    using ex_attach_state by (simp add: ex_state_def)
  have m: "(12, ex_attached_group 12 RESOLVED 0 0) \<in> set (attached_groups ex_attached)"
    by (simp add: ex_attached_def)
  have o: "owned ex_project (state_groups ex_state) (state_rules ex_state)"
    by (simp add: owned_def ex_defs)
  have n: "\<not> owned ex_project [(10, (ex_group 10 UNRESOLVED)\<lparr>group_project_id := 2\<rparr>)] []"
    by (simp add: owned_def ex_defs)
  have k: "12 \<notin> fst ` set (state_event_counts ex_state)" "12 \<notin> fst ` set (state_user_counts ex_state)"
    by (simp_all add: ex_state_def)
  from attach_state_ownership_and_zero_counts
    [of ex_project "state_groups ex_state" "state_rules ex_state"
        "state_event_counts ex_state" "state_user_counts ex_state"] a m k
  have z: "group_event_count (ex_attached_group 12 RESOLVED 0 0) = 0 \<and>
           group_user_count (ex_attached_group 12 RESOLVED 0 0) = 0"
    by blast
  from attach_state_ownership_and_zero_counts
    [of ex_project "[(10, (ex_group 10 UNRESOLVED)\<lparr>group_project_id := 2\<rparr>)]" "[]" "[]" "[]"] n
  have "attach_state ex_project [(10, (ex_group 10 UNRESOLVED)\<lparr>group_project_id := 2\<rparr>)] [] [] []
     = Inl AssertionError"
    by blast
  with a m o n k z show ?thesis by blast
qed

subsection \<open>Counts of unknown groups\<close>

text \<open>
  C10. When a key of the event counts or of the user counts is not a key of the groups,
  \<open>attach_state\<close> does not return; \<open>KeyError\<close> is raised once the ownership assertions,
  which come first, have passed.
\<close>

theorem attach_state_requires_count_keys:
  assumes "k \<in> fst ` set event_counts \<union> fst ` set user_counts" and "k \<notin> fst ` set groups"
  shows "(\<forall>st. attach_state project groups rules event_counts user_counts \<noteq> Inr st) \<and>
         (owned project groups rules \<longrightarrow>
            attach_state project groups rules event_counts user_counts = Inl KeyError)"
proof -
  from assms have "\<not> (fst ` set event_counts \<subseteq> fst ` set groups \<and>
      fst ` set user_counts \<subseteq> fst ` set groups)" by blast
  with attach_state_ok_iff [of project groups rules event_counts user_counts]
  have no: "\<forall>st. attach_state project groups rules event_counts user_counts \<noteq> Inr st" by blast
  then obtain e where e: "attach_state project groups rules event_counts user_counts = Inl e"
    by (cases "attach_state project groups rules event_counts user_counts") auto
  from attach_state_error [OF e] e no show ?thesis by auto
qed

text \<open>An event count for the unknown group 13, with the example state.\<close>

theorem attach_state_requires_count_keys_witness:
  "13 \<in> fst ` set [(10, 5), (13, 1 :: int)] \<union> fst ` set (state_user_counts ex_state) \<and>
   13 \<notin> fst ` set (state_groups ex_state) \<and>
   owned ex_project (state_groups ex_state) (state_rules ex_state) \<and>
   attach_state ex_project (state_groups ex_state) (state_rules ex_state) [(10, 5), (13, 1)]
     (state_user_counts ex_state) = Inl KeyError"
proof -
  have a: "13 \<in> fst ` set [(10, 5), (13, 1::int)] \<union> fst ` set (state_user_counts ex_state)"
    by simp
  have b: "13 \<notin> fst ` set (state_groups ex_state)" by (simp add: ex_state_def)
  have o: "owned ex_project (state_groups ex_state) (state_rules ex_state)"
    by (simp add: owned_def ex_defs)
  from attach_state_requires_count_keys [OF a b, of ex_project "state_rules ex_state"] o a b
  show ?thesis by blast
qed

subsection \<open>The interval of the counter queries\<close>

lemma last_le_hd_reverse_sorted:
  fixes xs :: "int list"
  assumes "xs \<noteq> []" and "sorted (rev xs)"
  shows "last xs \<le> hd xs"
proof -
  from assms(1) obtain x ys where xs: "xs = x # ys" by (cases xs) auto
  from assms(2) have "sorted_wrt (\<lambda>a b. b \<le> a) xs" by (simp add: sorted_wrt_rev)
  with xs have "\<forall>y \<in> set ys. y \<le> x" by simp
  moreover have "last xs = x \<or> last xs \<in> set ys" using xs by (cases ys) auto
  ultimately show ?thesis using xs by auto
qed

text \<open>
  C7. For a non-empty batch \<open>fetch_state\<close> returns, and both counter queries are made with
  the interval that starts at the timestamp of the last record and ends at the timestamp
  of the first record (each under the conversion of the \<open>datetime\<close> property). For a batch
  in reverse chronological order the start is not after the end.
\<close>

theorem fetch_state_interval:
  assumes "records \<noteq> []"
  shows "(\<exists>st. fetch_state env project records = Inr st \<and>
           state_event_counts st =
             tsdb_get_sums env (map fst (state_groups st))
               (to_datetime env (record_timestamp (last records)))
               (to_datetime env (record_timestamp (hd records))) \<and>
           state_user_counts st =
             tsdb_get_distinct_counts_totals env (map fst (state_groups st))
               (to_datetime env (record_timestamp (last records)))
               (to_datetime env (record_timestamp (hd records)))) \<and>
         (sorted (rev (map record_timestamp records)) \<longrightarrow>
            record_timestamp (last records) \<le> record_timestamp (hd records))"
proof
  show "\<exists>st. fetch_state env project records = Inr st \<and>
           state_event_counts st =
             tsdb_get_sums env (map fst (state_groups st))
               (to_datetime env (record_timestamp (last records)))
               (to_datetime env (record_timestamp (hd records))) \<and>
           state_user_counts st =
             tsdb_get_distinct_counts_totals env (map fst (state_groups st))
               (to_datetime env (record_timestamp (last records)))
               (to_datetime env (record_timestamp (hd records)))"
    using assms by (simp add: fetch_state_def Let_def Record_datetime_def)
  show "sorted (rev (map record_timestamp records)) \<longrightarrow>
            record_timestamp (last records) \<le> record_timestamp (hd records)"
  proof
    assume "sorted (rev (map record_timestamp records))"
    with assms last_le_hd_reverse_sorted [of "map record_timestamp records"]
    show "record_timestamp (last records) \<le> record_timestamp (hd records)"
      by (simp add: last_map hd_map)
  qed
qed

text \<open>The example batch runs from 30 down to 10.\<close>

theorem fetch_state_interval_witness:
  "ex_records \<noteq> [] \<and> sorted (rev (map record_timestamp ex_records)) \<and>
   (\<exists>st. fetch_state ex_env ex_project ex_records = Inr st \<and>
      state_event_counts st = tsdb_get_sums ex_env (map fst (state_groups st)) 10 30 \<and>
      state_user_counts st =
        tsdb_get_distinct_counts_totals ex_env (map fst (state_groups st)) 10 30) \<and>
   record_timestamp (last ex_records) \<le> record_timestamp (hd ex_records)"
proof -
  have n: "ex_records \<noteq> []" by (simp add: ex_records_def)
  have s: "sorted (rev (map record_timestamp ex_records))"
    by (simp add: ex_records_def ex_record_def)
  have t: "record_timestamp (last ex_records) = 10" "record_timestamp (hd ex_records) = 30"
    by (simp_all add: ex_records_def ex_record_def)
  have c: "to_datetime ex_env = (\<lambda>t. t)" by (simp add: ex_env_def)
  note th = fetch_state_interval [OF n, of ex_env ex_project]
  from th [THEN conjunct1] t c
  have 1: "\<exists>st. fetch_state ex_env ex_project ex_records = Inr st \<and>
      state_event_counts st = tsdb_get_sums ex_env (map fst (state_groups st)) 10 30 \<and>
      state_user_counts st =
        tsdb_get_distinct_counts_totals ex_env (map fst (state_groups st)) 10 30"
    by simp
  from th [THEN conjunct2] s
  have 2: "record_timestamp (last ex_records) \<le> record_timestamp (hd ex_records)"
    by (rule mp)
  from n s 1 2 show ?thesis by (intro conjI)
qed

subsection \<open>Running the pipeline twice\<close>

lemma rewrite_record_after:
  "rewrite_record
     (record\<lparr>record_value := (record_value record)
        \<lparr>notification_event := fst (rewrite_record record project groups rules)\<rparr>\<rparr>)
     project groups rules
   = rewrite_record record project groups rules"
  by (simp add: rewrite_record_def Let_def split: option.splits)

lemma rewritten_after:
  "rewritten state (records_after_pipeline state records) = rewritten state records"
  by (simp add: rewritten_def records_after_pipeline_def comp_def rewrite_record_after)

text \<open>
  C8. Running the pipeline again on the records as the first run left them, with the same
  attached state, gives the same result, and leaves the records as they were.
\<close>

theorem digest_pipeline_idempotent:
  "digest_pipeline state (records_after_pipeline state records) = digest_pipeline state records \<and>
   records_after_pipeline state (records_after_pipeline state records)
     = records_after_pipeline state records"
proof
  show "digest_pipeline state (records_after_pipeline state records) = digest_pipeline state records"
    by (simp add: digest_pipeline_eq survivors_def rewritten_after)
  show "records_after_pipeline state (records_after_pipeline state records)
     = records_after_pipeline state records"
    by (simp add: records_after_pipeline_def comp_def rewrite_record_after)
qed

subsection \<open>Where a record occurs\<close>

text \<open>
  C9. In the digest returned by \<open>build_digest\<close> the list under a rule and a
  group consists of the surviving records of that group, in the order of the batch, each
  as many times as the rule occurs in its rewritten rule list. A surviving record occurs,
  under each of its rules, in exactly one list, the one of its group. When no surviving
  record repeats a rule, each list is the subsequence of the surviving records that belong
  to the group and have the rule.
\<close>

theorem leaf_contents:
  assumes "build_state env project records state = Inr attached"
    and "build_digest env project records state = Inr (Some d)"
  shows "(\<forall>x \<in> set d. \<forall>y \<in> set (snd x).
            snd y = expected_leaf (survivors attached records) (rule_id (fst x)) (group_id (fst y))) \<and>
         (\<forall>rec \<in> set (survivors attached records).
            \<forall>rule \<in> set (notification_rules (record_value rec)).
            \<forall>g. record_group rec = Some g \<longrightarrow>
              (\<exists>x \<in> set d. \<exists>y \<in> set (snd x).
                 rule_id (fst x) = rule_id rule \<and> group_id (fst y) = group_id g \<and>
                 rec \<in> set (snd y) \<and>
                 (\<forall>x' \<in> set d. \<forall>y' \<in> set (snd x').
                    rule_id (fst x') = rule_id rule \<and> rec \<in> set (snd y') \<longrightarrow> x' = x \<and> y' = y))) \<and>
         ((\<forall>rec \<in> set (survivors attached records).
              distinct (map rule_id (notification_rules (record_value rec)))) \<longrightarrow>
          (\<forall>x \<in> set d. \<forall>y \<in> set (snd x).
             snd y = filter (\<lambda>rec. map_option group_id (record_group rec) = Some (group_id (fst y)) \<and>
                              rule_id (fst x) \<in> rule_id ` set (notification_rules (record_value rec)))
                       (survivors attached records)))"
proof -
  let ?xs = "survivors attached records"
  from assms have d: "d = sort_rule_groups (sort_group_contents (grouped ?xs))"
    by (auto simp: build_digest_eq split: if_splits)
  have leaf: "snd y = expected_leaf ?xs (rule_id (fst x)) (group_id (fst y))"
    if "x \<in> set d" "y \<in> set (snd x)" for x y
  proof -
    from that have "(fst x, snd x) \<in> set (sort_rule_groups (sort_group_contents (grouped ?xs)))"
      "(fst y, snd y) \<in> set (snd x)" by (simp_all add: d)
    from final_leaf [OF this] show ?thesis by blast
  qed
  have dist_outer: "distinct (map (\<lambda>x. rule_id (fst x)) d)"
    and dist_inner: "\<forall>x \<in> set d. distinct (map (\<lambda>y. group_id (fst y)) (snd x))"
    using digest_keys_distinct [OF assms(2)] by blast+
  have unique: "\<exists>x \<in> set d. \<exists>y \<in> set (snd x).
                 rule_id (fst x) = rule_id rule \<and> group_id (fst y) = group_id g \<and>
                 rec \<in> set (snd y) \<and>
                 (\<forall>x' \<in> set d. \<forall>y' \<in> set (snd x').
                    rule_id (fst x') = rule_id rule \<and> rec \<in> set (snd y') \<longrightarrow> x' = x \<and> y' = y)"
    if rec: "rec \<in> set ?xs" and rule: "rule \<in> set (notification_rules (record_value rec))"
      and g: "record_group rec = Some g" for rec rule g
  proof -
    from expected_leaf_member_conv [OF rec g rule]
    have m: "rec \<in> set (expected_leaf ?xs (rule_id rule) (group_id g))" .
    then have "digest_leaf (grouped ?xs) (rule_id rule) (group_id g) \<noteq> []"
      by (auto simp: digest_leaf_grouped)
    from digest_leaf_exists [OF this] obtain r0 inner0 g0
      where r0: "rule_id r0 = rule_id rule" and g0: "group_id g0 = group_id g"
        and e: "(r0, inner0) \<in> set (grouped ?xs)"
        and l: "(g0, expected_leaf ?xs (rule_id rule) (group_id g)) \<in> set inner0"
      by (auto simp: digest_leaf_grouped)
    let ?x = "(r0, sorted_reverse count_key inner0)"
    let ?y = "(g0, expected_leaf ?xs (rule_id rule) (group_id g))"
    have x: "?x \<in> set d" unfolding d by (rule final_entry_conv [OF e])
    have y: "?y \<in> set (snd ?x)" using l by (simp add: set_sorted_reverse)
    have "x' = ?x \<and> y' = ?y"
      if x': "x' \<in> set d" and y': "y' \<in> set (snd x')"
        and c: "rule_id (fst x') = rule_id rule \<and> rec \<in> set (snd y')" for x' y'
    proof -
      from c r0 have "rule_id (fst x') = rule_id (fst ?x)" by simp
      from distinct_map_eq [OF dist_outer x' x this] have ex: "x' = ?x" .
      from c have rm: "rec \<in> set (snd y')" by blast
      have "rec \<in> set (expected_leaf ?xs (rule_id (fst x')) (group_id (fst y')))"
        using rm unfolding leaf [OF x' y'] .
      from expected_leaf_member [OF this] g have "group_id g = group_id (fst y')" by auto
      with g0 have k: "group_id (fst y') = group_id (fst ?y)" by simp
      from dist_inner x have "distinct (map (\<lambda>y. group_id (fst y)) (snd ?x))" by blast
      from distinct_map_eq [OF this _ y k] y' ex have "y' = ?y" by simp
      with ex show ?thesis by simp
    qed
    then have u: "\<forall>x' \<in> set d. \<forall>y' \<in> set (snd x').
        rule_id (fst x') = rule_id rule \<and> rec \<in> set (snd y') \<longrightarrow> x' = ?x \<and> y' = ?y"
      by blast
    have p: "rule_id (fst ?x) = rule_id rule \<and> group_id (fst ?y) = group_id g \<and>
                 rec \<in> set (snd ?y)"
      using r0 g0 m by simp
    show ?thesis
      by (rule bexI [OF _ x], rule bexI [OF _ y]) (use p u in blast)
  qed
  have "\<forall>x \<in> set d. \<forall>y \<in> set (snd x).
             snd y = filter (\<lambda>rec. map_option group_id (record_group rec) = Some (group_id (fst y)) \<and>
                              rule_id (fst x) \<in> rule_id ` set (notification_rules (record_value rec)))
                       ?xs"
    if "\<forall>rec \<in> set ?xs. distinct (map rule_id (notification_rules (record_value rec)))"
  proof (intro ballI)
    fix x y assume "x \<in> set d" "y \<in> set (snd x)"
    from leaf [OF this] show "snd y = filter (\<lambda>rec. map_option group_id (record_group rec) = Some (group_id (fst y)) \<and>
                              rule_id (fst x) \<in> rule_id ` set (notification_rules (record_value rec)))
                       ?xs"
      by (simp only: expected_leaf_distinct [OF that])
  qed
  then have c: "(\<forall>rec \<in> set ?xs. distinct (map rule_id (notification_rules (record_value rec)))) \<longrightarrow>
          (\<forall>x \<in> set d. \<forall>y \<in> set (snd x).
             snd y = filter (\<lambda>rec. map_option group_id (record_group rec) = Some (group_id (fst y)) \<and>
                              rule_id (fst x) \<in> rule_id ` set (notification_rules (record_value rec)))
                       ?xs)" by (rule impI)
  have a: "\<forall>x \<in> set d. \<forall>y \<in> set (snd x).
            snd y = expected_leaf ?xs (rule_id (fst x)) (group_id (fst y))"
    using leaf by blast
  have b: "\<forall>rec \<in> set ?xs.
            \<forall>rule \<in> set (notification_rules (record_value rec)).
            \<forall>g. record_group rec = Some g \<longrightarrow>
              (\<exists>x \<in> set d. \<exists>y \<in> set (snd x).
                 rule_id (fst x) = rule_id rule \<and> group_id (fst y) = group_id g \<and>
                 rec \<in> set (snd y) \<and>
                 (\<forall>x' \<in> set d. \<forall>y' \<in> set (snd x').
                    rule_id (fst x') = rule_id rule \<and> rec \<in> set (snd y') \<longrightarrow> x' = x \<and> y' = y))"
    using unique by (intro ballI allI impI)
  from a b c show ?thesis by (intro conjI)
qed

text \<open>The example digest, where no record repeats a rule.\<close>

theorem leaf_contents_witness:
  "build_state ex_env ex_project ex_records (Some ex_state) = Inr ex_attached \<and>
   build_digest ex_env ex_project ex_records (Some ex_state) = Inr (Some ex_digest) \<and>
   hd ex_digest \<in> set ex_digest \<and>
   hd (snd (hd ex_digest)) \<in> set (snd (hd ex_digest)) \<and>
   list_all (\<lambda>rec. distinct (map rule_id (notification_rules (record_value rec))))
     (survivors ex_attached ex_records) \<and>
   snd (hd (snd (hd ex_digest))) =
     expected_leaf (survivors ex_attached ex_records) (rule_id (fst (hd ex_digest)))
       (group_id (fst (hd (snd (hd ex_digest))))) \<and>
   snd (hd (snd (hd ex_digest))) =
     filter (\<lambda>rec. map_option group_id (record_group rec)
                      = Some (group_id (fst (hd (snd (hd ex_digest))))) \<and>
                    rule_id (fst (hd ex_digest))
                      \<in> rule_id ` set (notification_rules (record_value rec)))
       (survivors ex_attached ex_records)"
proof -
  have m1: "hd ex_digest \<in> set ex_digest" by (simp add: ex_digest_def)
  have m2: "hd (snd (hd ex_digest)) \<in> set (snd (hd ex_digest))" by (simp add: ex_digest_def)
  have dl: "list_all (\<lambda>rec. distinct (map rule_id (notification_rules (record_value rec))))
     (survivors ex_attached ex_records)"
    by (simp add: ex_survivors ex_rewritten_def ex_attached_rule_def)
  then have db: "\<forall>rec \<in> set (survivors ex_attached ex_records).
      distinct (map rule_id (notification_rules (record_value rec)))"
    by (simp add: list_all_iff)
  note th = leaf_contents [OF ex_build_state ex_build_digest]
  from th [THEN conjunct1, THEN bspec, OF m1, THEN bspec, OF m2]
  have 1: "snd (hd (snd (hd ex_digest))) =
     expected_leaf (survivors ex_attached ex_records) (rule_id (fst (hd ex_digest)))
       (group_id (fst (hd (snd (hd ex_digest)))))" .
  from th [THEN conjunct2, THEN conjunct2, THEN mp, OF db, THEN bspec, OF m1, THEN bspec, OF m2]
  have 2: "snd (hd (snd (hd ex_digest))) =
     filter (\<lambda>rec. map_option group_id (record_group rec)
                      = Some (group_id (fst (hd (snd (hd ex_digest))))) \<and>
                    rule_id (fst (hd ex_digest))
                      \<in> rule_id ` set (notification_rules (record_value rec)))
       (survivors ex_attached ex_records)" .
  from ex_build_state ex_build_digest m1 m2 dl 1 2 show ?thesis by (intro conjI)
qed

text \<open>
  C9, for a record that repeats a rule: its rewritten rule list has two entries, and it
  occurs in one list only, twice (not in two lists, once each).
\<close>

theorem repeated_rule_counterexample:
  "build_digest ex_env ex_project [ex_record ''e1'' 10 [5, 5] 30] (Some ex_state)
     = Inr (Some [(ex_attached_rule 5,
                   [(ex_attached_group 10 UNRESOLVED 5 9,
                     [ex_rewritten ''e1'' (ex_attached_group 10 UNRESOLVED 5 9)
                        [ex_attached_rule 5, ex_attached_rule 5] 30,
                      ex_rewritten ''e1'' (ex_attached_group 10 UNRESOLVED 5 9)
                        [ex_attached_rule 5, ex_attached_rule 5] 30])])]) \<and>
   length (notification_rules (record_value
     (ex_rewritten ''e1'' (ex_attached_group 10 UNRESOLVED 5 9)
        [ex_attached_rule 5, ex_attached_rule 5] 30))) = 2"
proof -
  have s: "survivors ex_attached [ex_record ''e1'' 10 [5, 5] 30] =
     [ex_rewritten ''e1'' (ex_attached_group 10 UNRESOLVED 5 9)
        [ex_attached_rule 5, ex_attached_rule 5] 30]"
    by (simp add: ex_defs Let_def survivors_def rewritten_def rewrite_record_def somes_def
        unresolved_def record_group_def get_status_def)
  have l: "length (notification_rules (record_value
     (ex_rewritten ''e1'' (ex_attached_group 10 UNRESOLVED 5 9)
        [ex_attached_rule 5, ex_attached_rule 5] 30))) = 2"
    by (simp add: ex_rewritten_def)
  have "build_digest ex_env ex_project [ex_record ''e1'' 10 [5, 5] 30] (Some ex_state)
     = Inr (Some [(ex_attached_rule 5,
                   [(ex_attached_group 10 UNRESOLVED 5 9,
                     [ex_rewritten ''e1'' (ex_attached_group 10 UNRESOLVED 5 9)
                        [ex_attached_rule 5, ex_attached_rule 5] 30,
                      ex_rewritten ''e1'' (ex_attached_group 10 UNRESOLVED 5 9)
                        [ex_attached_rule 5, ex_attached_rule 5] 30])])])"
    unfolding build_digest_eq build_state_def
    apply (simp add: ex_attach_state s)
    apply (simp add: ex_defs grouped_def group_records_total_def record_group_def
        sort_group_contents_def sort_rule_groups_def sorted_reverse_def)
    done
  with l show ?thesis by (intro conjI)
qed

end
